theory Spec2Isabelle
  imports Complex_Main
begin

section \<open>Arrays and errors\<close>

text \<open>
  The layers of \<^verbatim>\<open>assignment2/cs231n/layers.py\<close> compute on numpy arrays of floating-point
  numbers.  The embedding reads every array element as a \<^typ>\<open>real\<close>: a one-dimensional array
  is a list, an array of shape \<open>(N, D)\<close> is the list of its \<open>N\<close> rows.  An exception raised by
  the Python code is a value of \<open>error\<close>, returned on the left of a sum.

  numpy signals a not-a-number or an infinity where the reals have no value (a negative base
  under \<^verbatim>\<open>** 0.5\<close>, an array divided by zero) and goes on; these inputs are outside the
  embedding, and the theorems below say where they exclude them.  Arrays whose shapes do not
  fit together make numpy raise or broadcast; the theorems are about arrays of fitting shapes,
  stated with \<open>is_mat\<close> and \<open>wf4\<close>.
\<close>

type_synonym vec = "real list"
type_synonym mat = "real list list"

datatype error =
    ValueError string
  | AttributeError string
  | IndexError
  | ZeroDivisionError

definition is_mat :: "nat \<Rightarrow> nat \<Rightarrow> 'a list list \<Rightarrow> bool" where
  "is_mat N D m \<longleftrightarrow> length m = N \<and> (\<forall>r \<in> set m. length r = D)"

text \<open>The second component of \<^verbatim>\<open>x.shape\<close>, read off the first row; an empty batch has no
  row to read it from and gives \<open>0\<close>.\<close>

definition ncols :: "'a list list \<Rightarrow> nat" where
  "ncols m = (case m of [] \<Rightarrow> 0 | r # _ \<Rightarrow> length r)"

text \<open>\<^verbatim>\<open>np.sum(m, axis=0)\<close>: the sum of every column.\<close>

definition sum_axis0 :: "mat \<Rightarrow> vec" where
  "sum_axis0 m = map (\<lambda>j. sum_list (map (\<lambda>r. r ! j) m)) [0..<ncols m]"

text \<open>An operator applied element by element to two arrays of shape \<open>(N, D)\<close>.\<close>

definition ew :: "(real \<Rightarrow> real \<Rightarrow> real) \<Rightarrow> mat \<Rightarrow> mat \<Rightarrow> mat" where
  "ew f a b = map2 (map2 f) a b"

text \<open>An operator applied to an array of shape \<open>(N, D)\<close> and a vector of shape \<open>(D,)\<close>, which
  numpy broadcasts along the rows.\<close>

definition bc :: "(real \<Rightarrow> real \<Rightarrow> real) \<Rightarrow> mat \<Rightarrow> vec \<Rightarrow> mat" where
  "bc f a v = map (\<lambda>r. map2 f r v) a"

text \<open>An operation applied to every element of an array of shape \<open>(N, D)\<close>.\<close>

definition each :: "(real \<Rightarrow> real) \<Rightarrow> mat \<Rightarrow> mat" where
  "each f a = map (map f) a"

section \<open>Batch normalization\<close>

text \<open>
  \<^verbatim>\<open>bn_param\<close> is a dictionary: \<^verbatim>\<open>mode\<close> is read with \<^verbatim>\<open>bn_param['mode']\<close> and is required,
  the other keys are read with \<^verbatim>\<open>bn_param.get(key, default)\<close> and may be absent.
\<close>

record bn_param =
  bn_mode :: string
  bn_eps :: "real option"
  bn_momentum :: "real option"
  bn_running_mean :: "vec option"
  bn_running_var :: "vec option"

text \<open>The tuple \<^verbatim>\<open>cache\<close> of the training-time forward pass, field by field.\<close>

record bn_cache =
  c_x :: mat
  c_N :: nat
  c_sample_mean :: vec
  c_x_mean :: mat
  c_x_mean_squ :: mat
  c_sample_var :: vec
  c_sample_var_sqrt :: vec
  c_x_hat :: mat
  c_gamma :: vec
  c_beta :: vec
  c_eps :: real

text \<open>
  \<^verbatim>\<open>batchnorm_forward(x, gamma, beta, bn_param)\<close>.  The assignments to
  \<^verbatim>\<open>bn_param['running_mean']\<close> and \<^verbatim>\<open>bn_param['running_var']\<close> change the caller's dictionary;
  the model returns the dictionary after the call as third component.  The power
  \<^verbatim>\<open>** 0.5\<close> is \<open>powr (1/2)\<close>, the real power.
\<close>

definition batchnorm_forward ::
  "mat \<Rightarrow> vec \<Rightarrow> vec \<Rightarrow> bn_param \<Rightarrow> error + (mat \<times> bn_cache option \<times> bn_param)" where
  "batchnorm_forward x gamma beta bn_param =
    (let mode = bn_mode bn_param;
         eps = (case bn_eps bn_param of None \<Rightarrow> 1 / 100000 | Some e \<Rightarrow> e);
         momentum = (case bn_momentum bn_param of None \<Rightarrow> 9 / 10 | Some m \<Rightarrow> m);
         N = length x;
         D = ncols x;
         running_mean = (case bn_running_mean bn_param of None \<Rightarrow> replicate D 0 | Some v \<Rightarrow> v);
         running_var = (case bn_running_var bn_param of None \<Rightarrow> replicate D 0 | Some v \<Rightarrow> v)
     in if mode = ''train'' then
          (let sample_mean = map (\<lambda>s. s / real N) (sum_axis0 x);
               x_mean = bc (-) x sample_mean;
               x_mean_squ = each (\<lambda>a. a ^ 2) x_mean;
               sample_var = map (\<lambda>s. s / real N) (sum_axis0 x_mean_squ);
               sample_var_sqrt = map (\<lambda>v. (v + eps) powr (1 / 2)) sample_var;
               x_hat = bc (/) x_mean sample_var_sqrt;
               out = bc (+) (bc (\<lambda>h g. g * h) x_hat gamma) beta;
               bn_param' = bn_param
                 \<lparr> bn_running_mean :=
                     Some (map2 (+) (map (\<lambda>r. momentum * r) running_mean)
                                    (map (\<lambda>m. (1 - momentum) * m) sample_mean)),
                   bn_running_var :=
                     Some (map2 (+) (map (\<lambda>r. momentum * r) running_var)
                                    (map (\<lambda>v. (1 - momentum) * v) sample_var)) \<rparr>;
               cache = \<lparr> c_x = x, c_N = N, c_sample_mean = sample_mean, c_x_mean = x_mean,
                         c_x_mean_squ = x_mean_squ, c_sample_var = sample_var,
                         c_sample_var_sqrt = sample_var_sqrt, c_x_hat = x_hat,
                         c_gamma = gamma, c_beta = beta, c_eps = eps \<rparr>
           in Inr (out, Some cache, bn_param'))
        else if mode = ''test'' then
          (let x_hat = bc (/) (bc (-) x running_mean) (map (\<lambda>v. sqrt (v + eps)) running_var);
               out = bc (+) (bc (\<lambda>h g. g * h) x_hat gamma) beta
           in Inr (out, None, bn_param))
        else Inl (ValueError (''Invalid forward batchnorm mode '' @ [CHR 0x22] @ mode @ [CHR 0x22])))"

text \<open>
  \<^verbatim>\<open>batchnorm_backward(dout, cache)\<close>, the staged backward pass.  \<^verbatim>\<open>dx_mean += ...\<close> and
  \<^verbatim>\<open>dx += ...\<close> update one array in place (\<^verbatim>\<open>dx = dx_mean\<close> is the same array); each update
  is a new name here.  Every division is of a numpy array by \<^verbatim>\<open>float(N)\<close>, which does not
  raise.
\<close>

definition batchnorm_backward :: "mat \<Rightarrow> bn_cache \<Rightarrow> mat \<times> vec \<times> vec" where
  "batchnorm_backward dout cache =
    (let x = c_x cache; N = c_N cache; x_mean = c_x_mean cache;
         x_mean_squ = c_x_mean_squ cache; sample_var = c_sample_var cache;
         sample_var_sqrt = c_sample_var_sqrt cache; x_hat = c_x_hat cache;
         gamma = c_gamma cache; eps = c_eps cache;
         dgamma = sum_axis0 (ew (*) dout x_hat);
         dbeta = sum_axis0 dout;
         dx_hat = bc (*) dout gamma;
         dx_mean = bc (/) dx_hat sample_var_sqrt;
         dsample_var_sqrt =
           sum_axis0 (bc (/) (ew (*) (each (\<lambda>a. a * (- 1)) dx_hat) x_mean)
                             (map (\<lambda>s. s ^ 2) sample_var_sqrt));
         dsample_var =
           map2 (\<lambda>d v. d * (1 / 2) * (v + eps) powr (- (1 / 2))) dsample_var_sqrt sample_var;
         dx_mean_squ =
           each (\<lambda>a. a / real N) (bc (\<lambda>one d. d * one) (each (\<lambda>_. 1) x_mean_squ) dsample_var);
         dx_mean' = ew (+) dx_mean (ew (*) (each (\<lambda>a. a * 2) dx_mean_squ) x_mean);
         dsample_mean = sum_axis0 (each (\<lambda>a. a * (- 1)) dx_mean');
         dx = ew (+) dx_mean'
                (each (\<lambda>a. a / real N) (bc (\<lambda>one d. d * one) (each (\<lambda>_. 1) x) dsample_mean))
     in (dx, dgamma, dbeta))"

text \<open>
  \<^verbatim>\<open>batchnorm_backward_alt(dout, cache)\<close>, the closed form.  \<^verbatim>\<open>df = 1. / N\<close> divides a Python
  float by the Python integer \<^verbatim>\<open>N\<close> and raises \<^verbatim>\<open>ZeroDivisionError\<close> when \<^verbatim>\<open>N\<close> is zero.
\<close>

definition batchnorm_backward_alt :: "mat \<Rightarrow> bn_cache \<Rightarrow> error + (mat \<times> vec \<times> vec)" where
  "batchnorm_backward_alt dout cache =
    (let x = c_x cache; N = c_N cache; sample_mean = c_sample_mean cache;
         sample_var = c_sample_var cache; x_hat = c_x_hat cache;
         gamma = c_gamma cache; eps = c_eps cache;
         dgamma = sum_axis0 (ew (*) dout x_hat);
         dbeta = sum_axis0 dout;
         f = sample_mean;
         g = sample_var
     in if N = 0 then Inl ZeroDivisionError
        else
          (let df = 1 / real N;
               xf = bc (-) x f;
               dx = bc (\<lambda>t c. c * t)
                      (ew (-) (bc (-) (each (\<lambda>a. real N * a) dout) (sum_axis0 dout))
                              (bc (*) (bc (/) xf (map (\<lambda>v. v + eps) g))
                                      (sum_axis0 (ew (*) dout xf))))
                      (map2 (\<lambda>gm v. df * gm * (v + eps) powr (- (1 / 2))) gamma g)
           in Inr (dx, dgamma, dbeta)))"

section \<open>Dropout\<close>

text \<open>
  \<^verbatim>\<open>dropout_param\<close> is a dictionary with the required keys \<^verbatim>\<open>p\<close> and \<^verbatim>\<open>mode\<close> and the
  optional key \<^verbatim>\<open>seed\<close>.  The input \<^verbatim>\<open>x\<close> has any shape and the layer works element by
  element; the model takes the elements of \<^verbatim>\<open>x\<close> in row-major order.

  The training branch draws \<^verbatim>\<open>np.random.rand(*x.shape)\<close>.  The drawn array is the argument
  \<open>u\<close> of the model: whatever the seed and the state of the generator, numpy returns one
  number of the interval \<open>[0, 1)\<close> for every element of \<^verbatim>\<open>x\<close>.  The other branches do not
  draw.
\<close>

record dropout_param =
  dp_p :: real
  dp_mode :: string
  dp_seed :: "nat option"

text \<open>
  \<^verbatim>\<open>dropout_forward(x, dropout_param)\<close>.  There is no \<^verbatim>\<open>else\<close> branch: under any other mode
  \<^verbatim>\<open>out\<close> is still \<^verbatim>\<open>None\<close> when \<^verbatim>\<open>out.astype\<close> is evaluated, which raises
  \<^verbatim>\<open>AttributeError\<close>.  On real numbers \<^verbatim>\<open>astype(x.dtype)\<close> changes nothing.
\<close>

definition dropout_forward ::
  "vec \<Rightarrow> dropout_param \<Rightarrow> vec \<Rightarrow> error + (vec \<times> (dropout_param \<times> bool list option))" where
  "dropout_forward x dropout_param u =
    (let p = dp_p dropout_param; mode = dp_mode dropout_param;
         (mask, out) =
           (if mode = ''train'' then
              (let mask = map (\<lambda>r. r \<ge> p) u;
                   out = map2 (\<lambda>a m. a * (if m then 1 else 0) / (1 - p)) x mask
               in (Some mask, Some out))
            else if mode = ''test'' then (None, Some x)
            else (None, None));
         cache = (dropout_param, mask)
     in case out of
          None \<Rightarrow> Inl (AttributeError ''astype'')
        | Some out' \<Rightarrow> Inr (out', cache))"

section \<open>Loss functions\<close>

text \<open>
  The labels \<^verbatim>\<open>y\<close> are an array of Python integers.  \<^verbatim>\<open>x[np.arange(N), y]\<close> reads, in row
  \<open>i\<close>, the column \<^verbatim>\<open>y[i]\<close>: a negative index counts from the end of the row, and an index
  outside \<open>[-C, C)\<close> raises \<^verbatim>\<open>IndexError\<close>.  The model is for \<^verbatim>\<open>y\<close> of shape \<open>(N,)\<close>.
\<close>

definition norm_index :: "nat \<Rightarrow> int \<Rightarrow> nat option" where
  "norm_index C k =
    (if 0 \<le> k \<and> k < int C then Some (nat k)
     else if - int C \<le> k \<and> k < 0 then Some (nat (k + int C))
     else None)"

definition labels :: "nat \<Rightarrow> int list \<Rightarrow> error + nat list" where
  "labels C y =
    (if list_all (\<lambda>k. norm_index C k \<noteq> None) y
     then Inr (map (\<lambda>k. the (norm_index C k)) y)
     else Inl IndexError)"

text \<open>
  \<^verbatim>\<open>svm_loss(x, y, eps=1e-3)\<close>.  The assignments through \<^verbatim>\<open>[np.arange(N), y]\<close> write one
  element in every row; \<^verbatim>\<open>dx[margins > 0] = 1\<close> writes where the mask holds.  The divisions
  are numpy divisions by \<^verbatim>\<open>float(N + eps)\<close> and do not raise.  \<open>svm_margins\<close> is the array
  \<^verbatim>\<open>margins\<close> after \<^verbatim>\<open>margins[np.arange(N), y] = 0\<close>, for the labels \<open>ys\<close> as column
  numbers.
\<close>

definition svm_margins :: "mat \<Rightarrow> nat list \<Rightarrow> mat" where
  "svm_margins x ys =
    (let correct_class_scores = map2 (\<lambda>r k. r ! k) x ys;
         margins = map2 (\<lambda>r c. map (\<lambda>a. max 0 (a - c + 1)) r) x correct_class_scores
     in map2 (\<lambda>r k. r[k := 0]) margins ys)"

definition svm_loss :: "mat \<Rightarrow> int list \<Rightarrow> real \<Rightarrow> error + (real \<times> mat)" where
  "svm_loss x y eps =
    (let N = length x in
     case labels (ncols x) y of
       Inl err \<Rightarrow> Inl err
     | Inr ys \<Rightarrow>
        (let margins = svm_margins x ys;
             loss = sum_list (map sum_list margins) / (real N + eps);
             num_pos = map (\<lambda>r. length (filter (\<lambda>a. a > 0) r)) margins;
             dx0 = each (\<lambda>_. 0) x;
             dx1 = ew (\<lambda>d a. if a > 0 then 1 else d) dx0 margins;
             dx2 = map2 (\<lambda>(r, k) n. r[k := r ! k - real n]) (zip dx1 ys) num_pos;
             dx = each (\<lambda>a. a / (real N + eps)) dx2
         in Inr (loss, dx)))"

text \<open>\<^verbatim>\<open>np.max\<close> of a row; numpy raises \<^verbatim>\<open>ValueError\<close> on a row without elements.\<close>

definition row_max :: "vec \<Rightarrow> real" where
  "row_max r = fold max (tl r) (hd r)"

text \<open>
  \<^verbatim>\<open>softmax_loss(x, y, eps=1e-8)\<close>.  \<^verbatim>\<open>probs /= ...\<close> and \<^verbatim>\<open>probs += eps\<close> update
  \<^verbatim>\<open>probs\<close> in place, and \<^verbatim>\<open>dx\<close> is a copy.
\<close>

definition softmax_loss :: "mat \<Rightarrow> int list \<Rightarrow> real \<Rightarrow> error + (real \<times> mat)" where
  "softmax_loss x y eps =
    (if list_ex (\<lambda>r. r = []) x
     then Inl (ValueError ''zero-size array to reduction operation maximum which has no identity'')
     else
      (let probs0 = map (\<lambda>r. map (\<lambda>a. exp (a - row_max r)) r) x;
           probs1 = map (\<lambda>r. map (\<lambda>a. a / sum_list r) r) probs0;
           probs = each (\<lambda>a. a + eps) probs1;
           N = length x
       in case labels (ncols x) y of
            Inl err \<Rightarrow> Inl err
          | Inr ys \<Rightarrow>
             (let loss = - sum_list (map2 (\<lambda>r k. ln (r ! k)) probs ys) / (real N + eps);
                  dx1 = map2 (\<lambda>r k. r[k := r ! k - 1]) probs ys;
                  dx = each (\<lambda>a. a / (real N + eps)) dx1
              in Inr (loss, dx))))"

text \<open>The margin of class \<open>j\<close> in example \<open>i\<close>, in the words of the specification:
  \<open>max(0, x[i,j] - x[i,y_i] + 1)\<close> for \<open>j \<noteq> y_i\<close> and \<open>0\<close> for \<open>j = y_i\<close>.\<close>

definition margin :: "mat \<Rightarrow> int list \<Rightarrow> nat \<Rightarrow> nat \<Rightarrow> real" where
  "margin x y i j =
    (if int j = y ! i then 0 else max 0 (x ! i ! j - x ! i ! nat (y ! i) + 1))"

text \<open>The mean margin loss of the specification: the sum of all margins divided by \<open>N\<close>.\<close>

definition svm_loss_mean :: "mat \<Rightarrow> int list \<Rightarrow> real" where
  "svm_loss_mean x y =
    (\<Sum>i<length x. \<Sum>j<ncols x. margin x y i j) / real (length x)"

text \<open>The softmax probability of class \<open>j\<close> in example \<open>i\<close>, with the maximum of the row
  subtracted before the exponential.\<close>

definition softmax_prob :: "mat \<Rightarrow> nat \<Rightarrow> nat \<Rightarrow> real" where
  "softmax_prob x i j =
    exp (x ! i ! j - Max (set (x ! i)))
      / (\<Sum>k<length (x ! i). exp (x ! i ! k - Max (set (x ! i))))"

text \<open>The mean gradient of the specification: the probabilities (with \<open>eps\<close> added), one
  subtracted at the label, divided by \<open>N\<close>.\<close>

definition softmax_dx_mean :: "mat \<Rightarrow> int list \<Rightarrow> real \<Rightarrow> nat \<Rightarrow> nat \<Rightarrow> real" where
  "softmax_dx_mean x y eps i j =
    (softmax_prob x i j + eps - (if int j = y ! i then 1 else 0)) / real (length x)"

section \<open>Arrays of four dimensions\<close>

text \<open>
  The convolution and pooling layers work on arrays of shape \<open>(N, C, H, W)\<close>.  Such an array
  is its shape together with its elements as nested lists, so that an array without
  elements still has the shape numpy gives it.
\<close>

record array4 =
  shape4 :: "nat \<times> nat \<times> nat \<times> nat"
  data4 :: "real list list list list"

definition wf4 :: "array4 \<Rightarrow> bool" where
  "wf4 a \<longleftrightarrow>
    (case shape4 a of (N, C, H, W) \<Rightarrow>
       length (data4 a) = N \<and>
       list_all (\<lambda>img. length img = C \<and>
         list_all (\<lambda>ch. length ch = H \<and> list_all (\<lambda>row. length row = W) ch) img) (data4 a))"

definition at4 :: "array4 \<Rightarrow> nat \<Rightarrow> nat \<Rightarrow> nat \<Rightarrow> nat \<Rightarrow> real" where
  "at4 a n c h w = data4 a ! n ! c ! h ! w"

text \<open>\<^verbatim>\<open>np.zeros(shape)\<close>.\<close>

definition zeros4 :: "nat \<times> nat \<times> nat \<times> nat \<Rightarrow> array4" where
  "zeros4 s = (case s of (N, C, H, W) \<Rightarrow>
     \<lparr>shape4 = s, data4 = replicate N (replicate C (replicate H (replicate W 0)))\<rparr>)"

text \<open>A loop whose body may raise: the first error ends it.\<close>

fun foldM :: "('a \<Rightarrow> 's \<Rightarrow> error + 's) \<Rightarrow> 'a list \<Rightarrow> 's \<Rightarrow> error + 's" where
  "foldM f [] s = Inr s"
| "foldM f (a # as) s = (case f a s of Inl e \<Rightarrow> Inl e | Inr s' \<Rightarrow> foldM f as s')"

section \<open>Convolution\<close>

text \<open>
  \<^verbatim>\<open>conv_param\<close> has the keys \<^verbatim>\<open>stride\<close> and \<^verbatim>\<open>pad\<close>, both numbers of pixels.  The file is
  Python 2: \<^verbatim>\<open>/\<close> between integers is the floor division, here \<open>div\<close> on \<^typ>\<open>int\<close>, and
  raises \<^verbatim>\<open>ZeroDivisionError\<close> on a zero divisor.
\<close>

record conv_param =
  cp_stride :: nat
  cp_pad :: nat

text \<open>\<^verbatim>\<open>np.pad(x, ((0,), (0,), (pad,), (pad,)), mode='constant', constant_values=0)\<close>.\<close>

definition np_pad :: "nat \<Rightarrow> array4 \<Rightarrow> array4" where
  "np_pad p x = (case shape4 x of (N, C, H, W) \<Rightarrow>
     \<lparr>shape4 = (N, C, H + 2 * p, W + 2 * p),
      data4 = map (map (\<lambda>ch.
                replicate p (replicate (W + 2 * p) 0)
                @ map (\<lambda>row. replicate p 0 @ row @ replicate p 0) ch
                @ replicate p (replicate (W + 2 * p) 0))) (data4 x)\<rparr>)"

text \<open>The slice \<^verbatim>\<open>xs[lo:hi]\<close> of a list, for \<open>0 \<le> lo\<close>.\<close>

definition slice :: "nat \<Rightarrow> nat \<Rightarrow> 'a list \<Rightarrow> 'a list" where
  "slice lo hi xs = take (hi - lo) (drop lo xs)"

text \<open>\<^verbatim>\<open>.flatten()\<close> of an array of three dimensions, in row-major order.\<close>

definition flatten3 :: "real list list list \<Rightarrow> real list" where
  "flatten3 a = concat (map concat a)"

text \<open>\<^verbatim>\<open>np.split(v, n)\<close>: \<open>n\<close> sections of equal length.\<close>

definition np_split :: "real list \<Rightarrow> nat \<Rightarrow> error + real list list" where
  "np_split v n =
    (if n = 0 then Inl ZeroDivisionError
     else if length v mod n \<noteq> 0
     then Inl (ValueError ''array split does not result in an equal division'')
     else Inr (map (\<lambda>m. slice (m * (length v div n)) (Suc m * (length v div n)) v) [0..<n]))"

text \<open>
  The body of the loops of \<^verbatim>\<open>conv_forward_naive\<close> for the output position \<open>(i, j)\<close> and the
  filter \<open>k\<close>: it writes \<^verbatim>\<open>out[:, k, i, j]\<close>.
\<close>

definition conv_step ::
  "array4 \<Rightarrow> array4 \<Rightarrow> vec \<Rightarrow> nat \<Rightarrow> nat \<Rightarrow> nat \<Rightarrow> nat \<Rightarrow> nat \<Rightarrow> nat \<Rightarrow> nat \<Rightarrow> array4
     \<Rightarrow> error + array4" where
  "conv_step x_pad w b N HH WW stride i j k out =
    (let hs = i * stride; he = i * stride + HH;
         ws = j * stride; we = j * stride + WW;
         tensor = concat (map (\<lambda>img. flatten3 (map (\<lambda>ch. map (slice ws we) (slice hs he ch)) img))
                    (data4 x_pad));
         f = concat (replicate N (flatten3 (data4 w ! k)));
         dot = map2 (*) tensor f
     in case np_split dot N of
          Inl e \<Rightarrow> Inl e
        | Inr Nsplit \<Rightarrow>
           (let Nsum = map (\<lambda>part. sum_list part + b ! k) Nsplit
            in Inr (out \<lparr>data4 :=
                 map2 (\<lambda>img v. img[k := (img ! k)[i := (img ! k ! i)[j := v]]]) (data4 out) Nsum\<rparr>)))"

text \<open>
  \<^verbatim>\<open>conv_forward_naive(x, w, b, conv_param)\<close>.  \<^verbatim>\<open>(F, ) = b.shape\<close> is the last assignment to
  \<^verbatim>\<open>F\<close>, and \<^verbatim>\<open>np.zeros\<close> raises \<^verbatim>\<open>ValueError\<close> on a negative dimension.
\<close>

definition conv_forward_naive ::
  "array4 \<Rightarrow> array4 \<Rightarrow> vec \<Rightarrow> conv_param
     \<Rightarrow> error + (array4 \<times> (array4 \<times> array4 \<times> vec \<times> conv_param))" where
  "conv_forward_naive x w b conv_param =
    (case shape4 x of (N, _, H, W) \<Rightarrow>
     case shape4 w of (_, C, HH, WW) \<Rightarrow>
     let F = length b;
         stride = cp_stride conv_param;
         pad = cp_pad conv_param
     in if stride = 0 then Inl ZeroDivisionError
        else
         (let H_prime = 1 + (int H + 2 * int pad - int HH) div int stride;
              W_prime = 1 + (int W + 2 * int pad - int WW) div int stride
          in if H_prime < 0 \<or> W_prime < 0
             then Inl (ValueError ''negative dimensions are not allowed'')
             else
              (let out = zeros4 (N, F, nat H_prime, nat W_prime);
                   x_pad = np_pad pad x
               in case foldM (\<lambda>i. foldM (\<lambda>j. foldM (conv_step x_pad w b N HH WW stride i j)
                                                 [0..<F])
                                    [0..<nat W_prime])
                         [0..<nat H_prime] out of
                    Inl e \<Rightarrow> Inl e
                  | Inr out' \<Rightarrow> Inr (out', (x, w, b, conv_param)))))"


text \<open>The array of the given shape all of whose elements are \<open>1\<close>.\<close>

definition ones4 :: "nat \<times> nat \<times> nat \<times> nat \<Rightarrow> array4" where
  "ones4 s = (case s of (N, C, H, W) \<Rightarrow>
     \<lparr>shape4 = s, data4 = replicate N (replicate C (replicate H (replicate W 1)))\<rparr>)"

text \<open>The zero-padded input and the sum over the receptive window of output position
  \<open>(i, j)\<close> for filter \<open>f\<close>, by indices.\<close>

definition padded :: "array4 \<Rightarrow> nat \<Rightarrow> nat \<Rightarrow> nat \<Rightarrow> nat \<Rightarrow> nat \<Rightarrow> real" where
  "padded x p n c h w = (case shape4 x of (N, C, H, W) \<Rightarrow>
     if p \<le> h \<and> h < H + p \<and> p \<le> w \<and> w < W + p then at4 x n c (h - p) (w - p) else 0)"

definition receptive_sum ::
  "array4 \<Rightarrow> array4 \<Rightarrow> nat \<Rightarrow> nat \<Rightarrow> nat \<Rightarrow> nat \<Rightarrow> nat \<Rightarrow> nat \<Rightarrow> real" where
  "receptive_sum x w p s n f i j = (case shape4 w of (F, C, HH, WW) \<Rightarrow>
     (\<Sum>c<C. \<Sum>a<HH. \<Sum>b<WW. padded x p n c (i * s + a) (j * s + b) * at4 w f c a b))"

section \<open>Max pooling\<close>

text \<open>\<^verbatim>\<open>pool_param\<close> has the keys \<^verbatim>\<open>pool_height\<close>, \<^verbatim>\<open>pool_width\<close> and \<^verbatim>\<open>stride\<close>.\<close>

record pool_param =
  pp_pool_height :: nat
  pp_pool_width :: nat
  pp_stride :: nat

text \<open>The window \<^verbatim>\<open>x[n, c, hs:he, ws:we]\<close> of one plane.\<close>

definition window2 :: "real list list \<Rightarrow> nat \<Rightarrow> nat \<Rightarrow> nat \<Rightarrow> nat \<Rightarrow> real list list" where
  "window2 plane hs he ws we = map (slice ws we) (slice hs he plane)"

text \<open>
  The body of the loops of \<^verbatim>\<open>max_pool_forward_naive\<close>: \<^verbatim>\<open>np.max\<close> of the window, which
  raises \<^verbatim>\<open>ValueError\<close> on a window without elements, written to \<^verbatim>\<open>out[n, c, i, j]\<close>.
\<close>

definition pool_forward_step ::
  "array4 \<Rightarrow> nat \<Rightarrow> nat \<Rightarrow> nat \<Rightarrow> nat \<Rightarrow> nat \<Rightarrow> nat \<Rightarrow> nat \<Rightarrow> array4 \<Rightarrow> error + array4" where
  "pool_forward_step x pool_h pool_w pool_s i j n c out =
    (let hs = i * pool_s; he = i * pool_s + pool_h;
         ws = j * pool_s; we = j * pool_s + pool_w;
         local = window2 (data4 x ! n ! c) hs he ws we
     in if concat local = []
        then Inl (ValueError ''zero-size array to reduction operation maximum which has no identity'')
        else
         (let loc_max = row_max (concat local)
          in Inr (out \<lparr>data4 := (data4 out)
                   [n := (data4 out ! n)[c := (data4 out ! n ! c)
                      [i := (data4 out ! n ! c ! i)[j := loc_max]]]]\<rparr>)))"

definition max_pool_forward_naive ::
  "array4 \<Rightarrow> pool_param \<Rightarrow> error + (array4 \<times> (array4 \<times> pool_param))" where
  "max_pool_forward_naive x pool_param =
    (case shape4 x of (N, C, H, W) \<Rightarrow>
     let pool_h = pp_pool_height pool_param;
         pool_w = pp_pool_width pool_param;
         pool_s = pp_stride pool_param
     in if pool_s = 0 then Inl ZeroDivisionError
        else
         (let H_prime = 1 + (int H - int pool_h) div int pool_s;
              W_prime = 1 + (int W - int pool_w) div int pool_s
          in if H_prime < 0 \<or> W_prime < 0
             then Inl (ValueError ''negative dimensions are not allowed'')
             else
              (let out = zeros4 (N, C, nat H_prime, nat W_prime)
               in case foldM (\<lambda>i. foldM (\<lambda>j. foldM (\<lambda>n.
                            foldM (pool_forward_step x pool_h pool_w pool_s i j n) [0..<C])
                          [0..<N]) [0..<nat W_prime]) [0..<nat H_prime] out of
                    Inl e \<Rightarrow> Inl e
                  | Inr out' \<Rightarrow> Inr (out', (x, pool_param)))))"

text \<open>
  \<^verbatim>\<open>v.argmax()\<close> of a flat array with at least one element: the scan keeps the first index
  of the largest value seen so far and moves on a strictly larger value only.
\<close>

fun argmax_from :: "real \<Rightarrow> nat \<Rightarrow> nat \<Rightarrow> real list \<Rightarrow> nat" where
  "argmax_from best bi k [] = bi"
| "argmax_from best bi k (a # as) =
     (if a > best then argmax_from a k (Suc k) as else argmax_from best bi (Suc k) as)"

definition argmax :: "real list \<Rightarrow> nat" where
  "argmax v = argmax_from (hd v) 0 1 (tl v)"

text \<open>\<^verbatim>\<open>plane[hs:he, ws:we] += m\<close>, where \<open>m\<close> has the shape of the slice.\<close>

definition add_slice2 :: "real list list \<Rightarrow> nat \<Rightarrow> nat \<Rightarrow> real list list \<Rightarrow> real list list" where
  "add_slice2 plane hs ws m =
    map (\<lambda>h. if hs \<le> h \<and> h < hs + length m
             then map (\<lambda>w. if ws \<le> w \<and> w < ws + length (m ! (h - hs))
                            then plane ! h ! w + m ! (h - hs) ! (w - ws)
                            else plane ! h ! w) [0..<length (plane ! h)]
             else plane ! h) [0..<length plane]"

text \<open>
  The body of the loops of \<^verbatim>\<open>max_pool_backward_naive\<close>.  \<^verbatim>\<open>local.argmax()\<close> is the index
  into the flattened window and raises \<^verbatim>\<open>ValueError\<close> on a window without elements;
  \<^verbatim>\<open>np.unravel_index\<close> turns it into a row and a column of the window.
\<close>

definition pool_backward_step ::
  "array4 \<Rightarrow> array4 \<Rightarrow> nat \<Rightarrow> nat \<Rightarrow> nat \<Rightarrow> nat \<Rightarrow> nat \<Rightarrow> nat \<Rightarrow> nat \<Rightarrow> array4
     \<Rightarrow> error + array4" where
  "pool_backward_step x dout pool_h pool_w pool_s n c i j dx =
    (let hs = i * pool_s; he = i * pool_s + pool_h;
         ws = j * pool_s; we = j * pool_s + pool_w;
         local = window2 (data4 x ! n ! c) hs he ws we
     in if concat local = []
        then Inl (ValueError ''attempt to get argmax of an empty sequence'')
        else
         (let lw = length (hd local);
              p = argmax (concat local);
              max_idx = (p div lw, p mod lw);
              x_mask = map (\<lambda>a. map (\<lambda>b. if (a, b) = max_idx then 0 + 1 else 0) [0..<lw])
                         [0..<length local];
              upd = map (map (\<lambda>m. at4 dout n c i j * m)) x_mask
          in Inr (dx \<lparr>data4 := (data4 dx)
                   [n := (data4 dx ! n)[c := add_slice2 (data4 dx ! n ! c) hs ws upd]]\<rparr>)))"

definition max_pool_backward_naive :: "array4 \<Rightarrow> array4 \<times> pool_param \<Rightarrow> error + array4" where
  "max_pool_backward_naive dout cache =
    (case cache of (x, pool_param) \<Rightarrow>
     case shape4 x of (N, C, H, W) \<Rightarrow>
     let pool_h = pp_pool_height pool_param;
         pool_w = pp_pool_width pool_param;
         pool_s = pp_stride pool_param
     in if pool_s = 0 then Inl ZeroDivisionError
        else
         (let H_prime = 1 + (int H - int pool_h) div int pool_s;
              W_prime = 1 + (int W - int pool_w) div int pool_s;
              dx = zeros4 (shape4 x)
          in foldM (\<lambda>n. foldM (\<lambda>c. foldM (\<lambda>i.
                 foldM (pool_backward_step x dout pool_h pool_w pool_s n c i) [0..<nat W_prime])
               [0..<nat H_prime]) [0..<C]) [0..<N] dx))"

text \<open>
  Input position \<open>(h, w)\<close> is the first maximum of the window of output position \<open>(i, j)\<close>
  in plane \<open>(n, c)\<close>: it lies in the window, no element of the window is larger, and every
  element of the window before it in row-major order is smaller.
\<close>

definition first_max ::
  "array4 \<Rightarrow> pool_param \<Rightarrow> nat \<Rightarrow> nat \<Rightarrow> nat \<Rightarrow> nat \<Rightarrow> nat \<Rightarrow> nat \<Rightarrow> bool" where
  "first_max x pp n c i j h w \<longleftrightarrow>
    (let hs = i * pp_stride pp; ws = j * pp_stride pp;
         he = hs + pp_pool_height pp; we = ws + pp_pool_width pp
     in hs \<le> h \<and> h < he \<and> ws \<le> w \<and> w < we \<and>
        (\<forall>h' \<in> {hs..<he}. \<forall>w' \<in> {ws..<we}.
           at4 x n c h' w' \<le> at4 x n c h w \<and>
           (h' < h \<or> h' = h \<and> w' < w \<longrightarrow> at4 x n c h' w' < at4 x n c h w)))"



text \<open>
  The statistics of feature \<open>j\<close> over the batch, as the documentation of
  \<^verbatim>\<open>batchnorm_forward\<close> names them: the sample mean and the uncorrected sample variance
  (the sum of squared deviations divided by \<open>N\<close>).
\<close>

definition batch_mean :: "mat \<Rightarrow> nat \<Rightarrow> real" where
  "batch_mean x j = (\<Sum>i<length x. x ! i ! j) / real (length x)"

definition batch_var :: "mat \<Rightarrow> nat \<Rightarrow> real" where
  "batch_var x j = (\<Sum>i<length x. (x ! i ! j - batch_mean x j) ^ 2) / real (length x)"

section \<open>Elements of the array operations\<close>

lemma is_mat_ncols: "is_mat N D m \<Longrightarrow> 0 < N \<Longrightarrow> ncols m = D"
  by (cases m) (auto simp: is_mat_def ncols_def)

lemma is_mat_row: "is_mat N D m \<Longrightarrow> i < N \<Longrightarrow> length (m ! i) = D"
  by (simp add: is_mat_def)

lemma length_sum_axis0: "length (sum_axis0 m) = ncols m"
  by (simp add: sum_axis0_def)

lemma nth_sum_axis0: "j < ncols m \<Longrightarrow> sum_axis0 m ! j = sum_list (map (\<lambda>r. r ! j) m)"
  by (simp add: sum_axis0_def)

lemma is_mat_ew: "is_mat N D a \<Longrightarrow> is_mat N D b \<Longrightarrow> is_mat N D (ew f a b)"
proof -
  assume a: "is_mat N D a" and b: "is_mat N D b"
  have "length r = D" if "r \<in> set (ew f a b)" for r
  proof -
    from that obtain p q where "(p, q) \<in> set (zip a b)" and r: "r = map2 f p q"
      by (auto simp: ew_def)
    then have "p \<in> set a" and "q \<in> set b"
      by (auto dest: set_zip_leftD set_zip_rightD)
    then show ?thesis
      using a b r by (simp add: is_mat_def)
  qed
  then show ?thesis
    using a b by (simp add: is_mat_def ew_def)
qed

lemma is_mat_bc: "is_mat N D a \<Longrightarrow> length v = D \<Longrightarrow> is_mat N D (bc f a v)"
  by (auto simp: is_mat_def bc_def)

lemma is_mat_each: "is_mat N D a \<Longrightarrow> is_mat N D (each f a)"
  by (auto simp: is_mat_def each_def)

lemma nth_bc:
  "is_mat N D a \<Longrightarrow> length v = D \<Longrightarrow> i < N \<Longrightarrow> j < D \<Longrightarrow> bc f a v ! i ! j = f (a ! i ! j) (v ! j)"
  by (simp add: is_mat_def bc_def)

lemma nth_each: "is_mat N D a \<Longrightarrow> i < N \<Longrightarrow> j < D \<Longrightarrow> each f a ! i ! j = f (a ! i ! j)"
  by (simp add: is_mat_def each_def)

lemma mat_eqI:
  assumes "is_mat N D a" and "is_mat N D b"
    and "\<And>i j. i < N \<Longrightarrow> j < D \<Longrightarrow> a ! i ! j = b ! i ! j"
  shows "a = b"
proof (rule nth_equalityI)
  show "length a = length b"
    using assms(1,2) by (simp add: is_mat_def)
next
  fix i assume i: "i < length a"
  then have iN: "i < N"
    using assms(1) by (simp add: is_mat_def)
  show "a ! i = b ! i"
  proof (rule nth_equalityI)
    show "length (a ! i) = length (b ! i)"
      using assms(1,2) iN by (simp add: is_mat_row)
  next
    fix j assume "j < length (a ! i)"
    then have "j < D"
      using assms(1) iN by (simp add: is_mat_row)
    then show "a ! i ! j = b ! i ! j"
      using assms(3) iN by simp
  qed
qed

lemma length_ew: "length (ew f a b) = min (length a) (length b)"
  by (simp add: ew_def)

lemma length_bc: "length (bc f a v) = length a"
  by (simp add: bc_def)

lemma length_each: "length (each f a) = length a"
  by (simp add: each_def)

lemma row_ew:
  "i < length a \<Longrightarrow> i < length b \<Longrightarrow> ew f a b ! i = map2 f (a ! i) (b ! i)"
  by (simp add: ew_def)

lemma row_bc: "i < length a \<Longrightarrow> bc f a v ! i = map2 f (a ! i) v"
  by (simp add: bc_def)

lemma row_each: "i < length a \<Longrightarrow> each f a ! i = map f (a ! i)"
  by (simp add: each_def)

lemmas rows = length_ew length_bc length_each row_ew row_bc row_each

text \<open>The sum of a column, over the indices of its rows.\<close>

lemma map_nth_upt: "map (\<lambda>r. r ! j) m = map (\<lambda>i. m ! i ! j) [0..<length m]"
  by (rule nth_equalityI) simp_all

lemma column_sum: "sum_list (map (\<lambda>r. r ! j) m) = (\<Sum>i<length m. m ! i ! j)"
proof -
  have "sum_list (map (\<lambda>r. r ! j) m) = sum_list (map (\<lambda>i. m ! i ! j) [0..<length m])"
    by (simp add: map_nth_upt)
  also have "\<dots> = (\<Sum>i<length m. m ! i ! j)"
    by (simp add: interv_sum_list_conv_sum_set_nat atLeast0LessThan)
  finally show ?thesis .
qed

lemma nth_sum_axis0_sum:
  "is_mat N D m \<Longrightarrow> 0 < N \<Longrightarrow> j < D \<Longrightarrow> sum_axis0 m ! j = (\<Sum>i<N. m ! i ! j)"
proof -
  assume m: "is_mat N D m" and N: "0 < N" and j: "j < D"
  have "sum_axis0 m ! j = sum_list (map (\<lambda>r. r ! j) m)"
    using m N j by (simp add: nth_sum_axis0 is_mat_ncols)
  also have "\<dots> = (\<Sum>i<length m. m ! i ! j)"
    by (rule column_sum)
  also have "length m = N"
    using m by (simp add: is_mat_def)
  finally show ?thesis .
qed

section \<open>The mode of batch normalization and dropout\<close>

text \<open>
  C9.  In mode \<^verbatim>\<open>'test'\<close>, \<^verbatim>\<open>batchnorm_forward\<close> returns, for every input, a result whose
  cache is \<^verbatim>\<open>None\<close>; and whenever it returns a cache that is not \<^verbatim>\<open>None\<close>, the mode was
  \<^verbatim>\<open>'train'\<close>.  So only a training-mode call gives \<^verbatim>\<open>batchnorm_backward\<close> a cache.
\<close>

theorem batchnorm_forward_test_cache:
  "(bn_mode bn_param = ''test'' \<longrightarrow>
      (\<exists>out. batchnorm_forward x gamma beta bn_param = Inr (out, None, bn_param))) \<and>
   (\<forall>out c bn_param'. batchnorm_forward x gamma beta bn_param = Inr (out, Some c, bn_param')
      \<longrightarrow> bn_mode bn_param = ''train'')"
  by (simp add: batchnorm_forward_def Let_def)

theorem batchnorm_forward_test_cache_witness:
  "bn_mode \<lparr>bn_mode = ''test'', bn_eps = None, bn_momentum = None,
             bn_running_mean = None, bn_running_var = None\<rparr> = ''test'' \<and>
   (\<exists>out.
      batchnorm_forward [[1, 2], [3, 4]] [1, 1] [0, 0]
        \<lparr>bn_mode = ''test'', bn_eps = None, bn_momentum = None,
         bn_running_mean = None, bn_running_var = None\<rparr>
      = Inr (out, None, \<lparr>bn_mode = ''test'', bn_eps = None, bn_momentum = None,
                         bn_running_mean = None, bn_running_var = None\<rparr>))"
  using batchnorm_forward_test_cache
    [of "\<lparr>bn_mode = ''test'', bn_eps = None, bn_momentum = None,
          bn_running_mean = None, bn_running_var = None\<rparr>" "[[1, 2], [3, 4]]" "[1, 1]" "[0, 0]"]
  by simp

text \<open>
  C2.  Under a mode other than \<^verbatim>\<open>'train'\<close> and \<^verbatim>\<open>'test'\<close>, here \<^verbatim>\<open>'valid'\<close>,
  \<^verbatim>\<open>batchnorm_forward\<close> raises \<^verbatim>\<open>ValueError\<close>, the invalid-argument error, while
  \<^verbatim>\<open>dropout_forward\<close> has no branch for the mode and raises \<^verbatim>\<open>AttributeError\<close> when it
  calls \<^verbatim>\<open>astype\<close> on \<^verbatim>\<open>None\<close>.
\<close>

theorem invalid_mode_errors:
  "batchnorm_forward [[1, 2], [3, 4]] [1, 1] [0, 0]
     \<lparr>bn_mode = ''valid'', bn_eps = None, bn_momentum = None,
      bn_running_mean = None, bn_running_var = None\<rparr>
   = Inl (ValueError (''Invalid forward batchnorm mode '' @ [CHR 0x22] @ ''valid'' @ [CHR 0x22])) \<and>
   dropout_forward [1, 2, 3] \<lparr>dp_p = 1 / 2, dp_mode = ''valid'', dp_seed = None\<rparr> u
   = Inl (AttributeError ''astype'')"
  by (simp add: batchnorm_forward_def dropout_forward_def Let_def)

text \<open>
  C8.  With \<^verbatim>\<open>p = 0\<close>, in mode \<^verbatim>\<open>'train'\<close> and in mode \<^verbatim>\<open>'test'\<close>, the output of
  \<^verbatim>\<open>dropout_forward\<close> is the input \<^verbatim>\<open>x\<close>, whatever numbers of \<open>[0, 1)\<close> the generator
  draws, one for every element of \<^verbatim>\<open>x\<close>.
\<close>

theorem dropout_forward_p_zero:
  assumes "dp_p dropout_param = 0"
    and "dp_mode dropout_param = ''train'' \<or> dp_mode dropout_param = ''test''"
    and "length u = length x"
    and "\<forall>r \<in> set u. 0 \<le> r \<and> r < 1"
  shows "\<exists>cache. dropout_forward x dropout_param u = Inr (x, cache)"
proof -
  have keep: "map2 (\<lambda>a m. a * (if m then 1 else 0) / (1 - 0)) x (map (\<lambda>r. 0 \<le> r) u) = x"
    using assms(3,4)
  proof (induction x arbitrary: u)
    case Nil
    then show ?case by simp
  next
    case (Cons a x)
    then show ?case by (cases u) simp_all
  qed
  from assms(2) show ?thesis
  proof
    assume "dp_mode dropout_param = ''train''"
    then show ?thesis
      using assms(1) keep by (simp add: dropout_forward_def Let_def)
  next
    assume "dp_mode dropout_param = ''test''"
    then show ?thesis
      by (simp add: dropout_forward_def Let_def)
  qed
qed

theorem dropout_forward_p_zero_witness:
  "dp_p \<lparr>dp_p = 0, dp_mode = ''train'', dp_seed = None\<rparr> = 0 \<and>
   dp_mode \<lparr>dp_p = 0, dp_mode = ''train'', dp_seed = None\<rparr> = ''train'' \<and>
   length [1 / 4, 3 / 4, 0 :: real] = length [5, - 2, 7 :: real] \<and>
   list_all (\<lambda>r. 0 \<le> r \<and> r < 1) [1 / 4, 3 / 4, 0 :: real] \<and>
   (\<exists>cache. dropout_forward [5, - 2, 7] \<lparr>dp_p = 0, dp_mode = ''train'', dp_seed = None\<rparr>
              [1 / 4, 3 / 4, 0] = Inr ([5, - 2, 7], cache))"
  using dropout_forward_p_zero
    [of "\<lparr>dp_p = 0, dp_mode = ''train'', dp_seed = None\<rparr>" "[1 / 4, 3 / 4, 0]" "[5, - 2, 7]"]
  by simp

section \<open>The running statistics of batch normalization\<close>

lemma sample_mean_nth:
  assumes "is_mat N D x" and "0 < N" and "j < D"
  shows "map (\<lambda>s. s / real N) (sum_axis0 x) ! j = batch_mean x j"
proof -
  have "length x = N"
    using assms(1) by (simp add: is_mat_def)
  then show ?thesis
    using assms nth_sum_axis0_sum [OF assms]
    by (simp add: length_sum_axis0 is_mat_ncols batch_mean_def)
qed

lemma sample_var_nth:
  assumes "is_mat N D x" and "0 < N" and "j < D"
  shows "map (\<lambda>s. s / real N)
           (sum_axis0 (each (\<lambda>a. a ^ 2) (bc (-) x (map (\<lambda>s. s / real N) (sum_axis0 x))))) ! j
         = batch_var x j"
proof -
  let ?mean = "map (\<lambda>s. s / real N) (sum_axis0 x)"
  have len: "length x = N"
    using assms(1) by (simp add: is_mat_def)
  have lm: "length ?mean = D"
    using assms(1,2) by (simp add: length_sum_axis0 is_mat_ncols)
  have xm: "is_mat N D (bc (-) x ?mean)"
    using assms(1) lm by (rule is_mat_bc)
  have sq: "is_mat N D (each (\<lambda>a. a ^ 2) (bc (-) x ?mean))"
    using xm by (rule is_mat_each)
  have el: "each (\<lambda>a. a ^ 2) (bc (-) x ?mean) ! i ! j = (x ! i ! j - batch_mean x j) ^ 2"
    if "i < N" for i
    using that assms xm lm sample_mean_nth [OF assms]
    by (simp add: nth_each [OF xm] nth_bc [OF assms(1) lm])
  have "sum_axis0 (each (\<lambda>a. a ^ 2) (bc (-) x ?mean)) ! j
        = (\<Sum>i<N. each (\<lambda>a. a ^ 2) (bc (-) x ?mean) ! i ! j)"
    using sq assms(2,3) by (rule nth_sum_axis0_sum)
  also have "\<dots> = (\<Sum>i<N. (x ! i ! j - batch_mean x j) ^ 2)"
    by (rule sum.cong) (simp_all add: el)
  finally show ?thesis
    using sq assms(2,3) len by (simp add: length_sum_axis0 is_mat_ncols batch_var_def)
qed

text \<open>
  C7.  For a batch \<open>x\<close> of \<open>N \<ge> 1\<close> rows and \<open>D\<close> features and running statistics of shape
  \<open>(D,)\<close> (zeros when the key is absent), a call of \<^verbatim>\<open>batchnorm_forward\<close> that returns leaves
  \<^verbatim>\<open>bn_param\<close> as follows.  In mode \<^verbatim>\<open>'train'\<close> it replaces \<^verbatim>\<open>running_mean\<close> and
  \<^verbatim>\<open>running_var\<close>, and nothing else, by
  \<open>momentum * running + (1 - momentum) * batch_stat\<close>, feature by feature, where the batch
  statistics are the mean and the uncorrected variance of the batch, \<open>momentum\<close> is \<open>0.9\<close>
  when the key is absent, and the \<open>eps\<close> recorded in the cache is \<open>1e-5\<close> when the key is
  absent.  In any other mode \<^verbatim>\<open>bn_param\<close> is unchanged.
\<close>

theorem batchnorm_forward_running_stats:
  assumes res: "batchnorm_forward x gamma beta bn_param = Inr (out, cache, bn_param')"
    and x: "is_mat N D x" and N: "0 < N"
    and rm0: "rm0 = (case bn_running_mean bn_param of None \<Rightarrow> replicate D 0 | Some v \<Rightarrow> v)"
    and rv0: "rv0 = (case bn_running_var bn_param of None \<Rightarrow> replicate D 0 | Some v \<Rightarrow> v)"
    and lrm: "length rm0 = D" and lrv: "length rv0 = D"
    and mom: "momentum = (case bn_momentum bn_param of None \<Rightarrow> 9 / 10 | Some m \<Rightarrow> m)"
  shows "(bn_mode bn_param = ''train'' \<longrightarrow>
           (\<exists>rm rv c.
              bn_param' = bn_param \<lparr>bn_running_mean := Some rm, bn_running_var := Some rv\<rparr> \<and>
              length rm = D \<and> length rv = D \<and>
              (\<forall>j<D. rm ! j = momentum * rm0 ! j + (1 - momentum) * batch_mean x j \<and>
                      rv ! j = momentum * rv0 ! j + (1 - momentum) * batch_var x j) \<and>
              cache = Some c \<and>
              c_eps c = (case bn_eps bn_param of None \<Rightarrow> 1 / 100000 | Some e \<Rightarrow> e))) \<and>
         (bn_mode bn_param \<noteq> ''train'' \<longrightarrow> bn_param' = bn_param)"
proof (intro conjI impI)
  assume "bn_mode bn_param \<noteq> ''train''"
  then show "bn_param' = bn_param"
    using res by (simp add: batchnorm_forward_def Let_def split: if_splits)
next
  assume train: "bn_mode bn_param = ''train''"
  let ?mean = "map (\<lambda>s. s / real N) (sum_axis0 x)"
  let ?var = "map (\<lambda>s. s / real N) (sum_axis0 (each (\<lambda>a. a ^ 2) (bc (-) x ?mean)))"
  let ?rm = "map2 (+) (map (\<lambda>r. momentum * r) rm0) (map (\<lambda>m. (1 - momentum) * m) ?mean)"
  let ?rv = "map2 (+) (map (\<lambda>r. momentum * r) rv0) (map (\<lambda>v. (1 - momentum) * v) ?var)"
  have len: "length x = N" and nc: "ncols x = D"
    using x N by (simp_all add: is_mat_def is_mat_ncols)
  have lm: "length ?mean = D"
    using nc by (simp add: length_sum_axis0)
  have "is_mat N D (each (\<lambda>a. a ^ 2) (bc (-) x ?mean))"
    using x lm by (intro is_mat_each is_mat_bc)
  then have lv: "length ?var = D"
    using N by (simp add: length_sum_axis0 is_mat_ncols)
  have upd: "bn_param' = bn_param \<lparr>bn_running_mean := Some ?rm, bn_running_var := Some ?rv\<rparr>"
    using res train len nc rm0 rv0 mom by (simp add: batchnorm_forward_def Let_def)
  have eps: "\<exists>c. cache = Some c \<and>
               c_eps c = (case bn_eps bn_param of None \<Rightarrow> 1 / 100000 | Some e \<Rightarrow> e)"
    using res train by (auto simp: batchnorm_forward_def Let_def)
  have el: "?rm ! j = momentum * rm0 ! j + (1 - momentum) * batch_mean x j \<and>
            ?rv ! j = momentum * rv0 ! j + (1 - momentum) * batch_var x j" if "j < D" for j
  proof -
    have "?mean ! j = batch_mean x j" and "?var ! j = batch_var x j"
      using x N that by (rule sample_mean_nth, rule sample_var_nth)
    moreover have "?rm ! j = momentum * rm0 ! j + (1 - momentum) * ?mean ! j"
      using that lrm lm by simp
    moreover have "?rv ! j = momentum * rv0 ! j + (1 - momentum) * ?var ! j"
      using that lrv lv by simp
    ultimately show ?thesis by simp
  qed
  from eps obtain c where "cache = Some c"
    and "c_eps c = (case bn_eps bn_param of None \<Rightarrow> 1 / 100000 | Some e \<Rightarrow> e)"
    by blast
  moreover have "length ?rm = D" and "length ?rv = D"
    using lrm lrv lm lv by simp_all
  ultimately show "\<exists>rm rv c.
      bn_param' = bn_param \<lparr>bn_running_mean := Some rm, bn_running_var := Some rv\<rparr> \<and>
      length rm = D \<and> length rv = D \<and>
      (\<forall>j<D. rm ! j = momentum * rm0 ! j + (1 - momentum) * batch_mean x j \<and>
              rv ! j = momentum * rv0 ! j + (1 - momentum) * batch_var x j) \<and>
      cache = Some c \<and>
      c_eps c = (case bn_eps bn_param of None \<Rightarrow> 1 / 100000 | Some e \<Rightarrow> e)"
    using upd el by blast
qed

theorem batchnorm_forward_running_stats_witness:
  "\<exists>out cache bn_param'.
     batchnorm_forward [[1, 2], [3, 4]] [1, 1] [0, 0]
       \<lparr>bn_mode = ''train'', bn_eps = None, bn_momentum = None,
        bn_running_mean = None, bn_running_var = Some [1, 1]\<rparr> = Inr (out, cache, bn_param') \<and>
     is_mat 2 2 [[1, 2], [3, 4 :: real]] \<and>
     bn_running_mean bn_param' = Some [1 / 5, 3 / 10] \<and>
     bn_running_var bn_param' = Some [1, 1]"
proof -
  let ?bp = "\<lparr>bn_mode = ''train'', bn_eps = None, bn_momentum = None,
              bn_running_mean = None, bn_running_var = Some [1, 1 :: real]\<rparr>"
  let ?x = "[[1, 2], [3, 4 :: real]]"
  obtain out cache bn_param' where
    r: "batchnorm_forward ?x [1, 1] [0, 0] ?bp = Inr (out, cache, bn_param')"
    by (simp add: batchnorm_forward_def Let_def)
  have x: "is_mat 2 2 ?x"
    by (simp add: is_mat_def)
  have bm: "batch_mean ?x 0 = 2" "batch_mean ?x 1 = 3"
    by (simp_all add: batch_mean_def lessThan_Suc eval_nat_numeral)
  have bm': "batch_mean ?x (Suc 0) = 3"
    using bm(2) by simp
  have bv: "batch_var ?x 0 = 1" "batch_var ?x 1 = 1"
    by (simp_all add: batch_var_def bm bm' lessThan_Suc eval_nat_numeral)
  from batchnorm_forward_running_stats
    [OF r x, of "[0, 0]" "[1, 1]" "9 / 10"]
  obtain rm rv where
    upd: "bn_param' = ?bp \<lparr>bn_running_mean := Some rm, bn_running_var := Some rv\<rparr>"
    and l: "length rm = 2" "length rv = 2"
    and el: "\<forall>j<2. rm ! j = 9 / 10 * [0, 0] ! j + (1 - 9 / 10) * batch_mean ?x j \<and>
                   rv ! j = 9 / 10 * [1, 1] ! j + (1 - 9 / 10) * batch_var ?x j"
    by (auto simp: eval_nat_numeral)
  have "rm ! 0 = 1 / 5" "rv ! 0 = 1"
    using el [rule_format, of 0] bm bv by simp_all
  moreover have "rm ! 1 = 3 / 10" "rv ! 1 = 1"
    using el [rule_format, of 1] bm bv by simp_all
  ultimately have "rm ! 0 = 1 / 5" "rm ! 1 = 3 / 10" "rv ! 0 = 1" "rv ! 1 = 1"
    by simp_all
  then have "rm = [1 / 5, 3 / 10]" "rv = [1, 1]"
    using l by (auto simp: list_eq_iff_nth_eq less_2_cases_iff)
  then show ?thesis
    using r x upd by simp
qed

section \<open>The two backward passes of batch normalization\<close>

text \<open>
  One column of the staged pass against the closed form: \<open>d\<close> is the column of \<^verbatim>\<open>dout\<close>,
  \<open>xm\<close> the centred column of \<^verbatim>\<open>x\<close>, whose sum is zero.
\<close>

lemma staged_closed_form:
  fixes d xm :: "nat \<Rightarrow> real" and g v eps s dsv :: real and N :: nat
  assumes N: "0 < N" and pos: "0 < v + eps" and zero: "(\<Sum>i<N. xm i) = 0"
    and s: "s = (v + eps) powr (1 / 2)"
    and dsv: "dsv = (\<Sum>i<N. d i * g * (- 1) * xm i / s ^ 2) * (1 / 2) * (v + eps) powr (- (1 / 2))"
    and dxm: "\<And>i. i < N \<Longrightarrow> dxm i = d i * g / s + dsv * 1 / real N * 2 * xm i"
    and k: "k < N"
  shows "dxm k + (\<Sum>i<N. dxm i * (- 1)) * 1 / real N
       = 1 / real N * g * (v + eps) powr (- (1 / 2))
         * (real N * d k - (\<Sum>i<N. d i) - xm k / (v + eps) * (\<Sum>i<N. d i * xm i))"
proof -
  define A where "A = (\<Sum>i<N. d i)"
  define B where "B = (\<Sum>i<N. d i * xm i)"
  have s_sqrt: "s = sqrt (v + eps)"
    using pos s by (simp add: powr_half_sqrt)
  have s_pos: "0 < s"
    using pos s_sqrt by simp
  have s_sq: "s ^ 2 = v + eps"
    using pos s_sqrt by simp
  have inv: "(v + eps) powr (- (1 / 2)) = 1 / s"
    using s by (simp add: powr_minus inverse_eq_divide)
  have "(\<Sum>i<N. d i * g * (- 1) * xm i / s ^ 2) = (\<Sum>i<N. (- g / s ^ 2) * (d i * xm i))"
    by (rule sum.cong) simp_all
  also have "\<dots> = (- g / s ^ 2) * B"
    unfolding B_def by (rule sum_distrib_left [symmetric])
  finally have dsv': "dsv = - g * B / (2 * s ^ 3)"
    using dsv inv s_pos by (simp add: power2_eq_square power3_eq_cube)
  define p q where "p = - g / s" and "q = - 2 * dsv / real N"
  have "(\<Sum>i<N. dxm i * (- 1)) = (\<Sum>i<N. p * d i + q * xm i)"
    by (rule sum.cong) (simp_all add: dxm p_def q_def mult.commute)
  also have "\<dots> = p * A + q * (\<Sum>i<N. xm i)"
    unfolding A_def by (simp only: sum.distrib sum_distrib_left)
  finally have dsm: "(\<Sum>i<N. dxm i * (- 1)) = - g * A / s"
    using zero by (simp add: p_def)
  have "dxm k + (- g * A / s) * 1 / real N
        = 1 / real N * g * (1 / s) * (real N * d k - A - xm k / s ^ 2 * B)"
    using N s_pos by (simp add: dxm [OF k] dsv' field_simps power2_eq_square power3_eq_cube)
  then show ?thesis
    unfolding dsm inv s_sq A_def B_def .
qed


lemma centered_sum_zero:
  assumes "0 < length x"
  shows "(\<Sum>i<length x. x ! i ! j - batch_mean x j) = 0"
  using assms by (simp add: sum_subtractf batch_mean_def)

lemma batch_var_nonneg: "0 \<le> batch_var x j"
  by (simp add: batch_var_def sum_nonneg)

text \<open>
  C1.  For a cache that \<^verbatim>\<open>batchnorm_forward\<close> produced in training mode from a batch of
  \<open>N \<ge> 1\<close> rows, with \<open>eps > 0\<close>, and an upstream gradient \<^verbatim>\<open>dout\<close> of the shape of
  \<^verbatim>\<open>x\<close>, \<^verbatim>\<open>batchnorm_backward_alt\<close> returns, and returns the \<^verbatim>\<open>dx\<close>, \<^verbatim>\<open>dgamma\<close> and
  \<^verbatim>\<open>dbeta\<close> of \<^verbatim>\<open>batchnorm_backward\<close>, as equations between real numbers.  With
  \<open>eps > 0\<close> the sum \<open>sample_var + eps\<close> is positive, so that the powers \<^verbatim>\<open>** 0.5\<close> and
  \<^verbatim>\<open>** (-0.5)\<close> and the divisions by them are those of the reals.
\<close>

theorem batchnorm_backward_alt_eq:
  assumes fw: "batchnorm_forward x gamma beta bn_param = Inr (out, Some cache, bn_param')"
    and x: "is_mat N D x" and N: "0 < N" and g: "length gamma = D"
    and d: "is_mat N D dout"
    and eps: "0 < (case bn_eps bn_param of None \<Rightarrow> 1 / 100000 | Some e \<Rightarrow> e)"
  shows "batchnorm_backward_alt dout cache = Inr (batchnorm_backward dout cache)"
proof -
  define e where "e = (case bn_eps bn_param of None \<Rightarrow> 1 / 100000 | Some e \<Rightarrow> e)"
  define mean where "mean = map (\<lambda>s. s / real N) (sum_axis0 x)"
  define xm where "xm = bc (-) x mean"
  define sq where "sq = each (\<lambda>a. a ^ 2) xm"
  define var where "var = map (\<lambda>s. s / real N) (sum_axis0 sq)"
  define svs where "svs = map (\<lambda>v. (v + e) powr (1 / 2)) var"
  have len: "length x = N" and nc: "ncols x = D"
    using x N by (simp_all add: is_mat_def is_mat_ncols)
  have train: "bn_mode bn_param = ''train''"
    using fw by (simp add: batchnorm_forward_def Let_def split: if_splits)
  have cache: "cache = \<lparr> c_x = x, c_N = N, c_sample_mean = mean, c_x_mean = xm,
      c_x_mean_squ = sq, c_sample_var = var, c_sample_var_sqrt = svs,
      c_x_hat = bc (/) xm svs, c_gamma = gamma, c_beta = beta, c_eps = e \<rparr>"
    using fw train len
    by (simp add: batchnorm_forward_def Let_def e_def mean_def xm_def sq_def var_def svs_def)
  have lmean: "length mean = D"
    using nc by (simp add: mean_def length_sum_axis0)
  have m_xm: "is_mat N D xm"
    unfolding xm_def using x lmean by (rule is_mat_bc)
  have m_sq: "is_mat N D sq"
    unfolding sq_def using m_xm by (rule is_mat_each)
  have lvar: "length var = D"
    using m_sq N by (simp add: var_def length_sum_axis0 is_mat_ncols)
  have lsvs: "length svs = D"
    using lvar by (simp add: svs_def)
  have mean_j: "mean ! j = batch_mean x j" if "j < D" for j
    unfolding mean_def using x N that by (rule sample_mean_nth)
  have var_j: "var ! j = batch_var x j" if "j < D" for j
    unfolding var_def sq_def xm_def mean_def using x N that by (rule sample_var_nth)
  have xm_ij: "xm ! i ! j = x ! i ! j - batch_mean x j" if "i < N" "j < D" for i j
    using that mean_j by (simp add: xm_def nth_bc [OF x lmean])
  have xm_sum: "(\<Sum>i<N. xm ! i ! j) = 0" if "j < D" for j
  proof -
    have "(\<Sum>i<N. xm ! i ! j) = (\<Sum>i<N. x ! i ! j - batch_mean x j)"
      by (rule sum.cong) (simp_all add: xm_ij that)
    then show ?thesis
      using centered_sum_zero [of x j] N len by simp
  qed
  have pos: "0 < var ! j + e" if "j < D" for j
    using that eps batch_var_nonneg [of x j] by (simp add: var_j e_def add_nonneg_pos)

  have rd: "length dout = N" "\<And>i. i < N \<Longrightarrow> length (dout ! i) = D"
    using d by (simp_all add: is_mat_def)
  have rxm: "length xm = N" "\<And>i. i < N \<Longrightarrow> length (xm ! i) = D"
    using m_xm by (simp_all add: is_mat_def)
  have rsq: "length sq = N" "\<And>i. i < N \<Longrightarrow> length (sq ! i) = D"
    using m_sq by (simp_all add: is_mat_def)
  have rx: "\<And>i. i < N \<Longrightarrow> length (x ! i) = D"
    using x by (simp_all add: is_mat_def)

  \<comment> \<open>the staged pass\<close>
  define dx_hat where "dx_hat = bc (*) dout gamma"
  define dx_mean where "dx_mean = bc (/) dx_hat svs"
  define t1 where "t1 = bc (/) (ew (*) (each (\<lambda>a. a * (- 1)) dx_hat) xm) (map (\<lambda>s. s ^ 2) svs)"
  define dsvs where "dsvs = sum_axis0 t1"
  define dsv where "dsv = map2 (\<lambda>d v. d * (1 / 2) * (v + e) powr (- (1 / 2))) dsvs var"
  define dsq where
    "dsq = each (\<lambda>a. a / real N) (bc (\<lambda>one d. d * one) (each (\<lambda>_. 1) sq) dsv)"
  define dx_mean' where "dx_mean' = ew (+) dx_mean (ew (*) (each (\<lambda>a. a * 2) dsq) xm)"
  define t2 where "t2 = each (\<lambda>a. a * (- 1)) dx_mean'"
  define dsm where "dsm = sum_axis0 t2"
  define dx where
    "dx = ew (+) dx_mean' (each (\<lambda>a. a / real N) (bc (\<lambda>one d. d * one) (each (\<lambda>_. 1) x) dsm))"
  have staged: "batchnorm_backward dout cache
      = (dx, sum_axis0 (ew (*) dout (bc (/) xm svs)), sum_axis0 dout)"
    by (simp add: batchnorm_backward_def cache Let_def dx_def dsm_def t2_def dx_mean'_def
        dsq_def dsv_def dsvs_def t1_def dx_mean_def dx_hat_def)
  have m_dx_hat: "is_mat N D dx_hat"
    unfolding dx_hat_def using d g by (rule is_mat_bc)
  have m_dx_mean: "is_mat N D dx_mean"
    unfolding dx_mean_def using m_dx_hat lsvs by (rule is_mat_bc)
  have m_neg: "is_mat N D (each (\<lambda>a. a * (- 1)) dx_hat)"
    using m_dx_hat by (rule is_mat_each)
  have m_prod: "is_mat N D (ew (*) (each (\<lambda>a. a * (- 1)) dx_hat) xm)"
    using m_neg m_xm by (rule is_mat_ew)
  have m_t1: "is_mat N D t1"
    unfolding t1_def using m_prod by (rule is_mat_bc) (simp add: lsvs)
  have ldsvs: "length dsvs = D"
    using m_t1 N by (simp add: dsvs_def length_sum_axis0 is_mat_ncols)
  have ldsv: "length dsv = D"
    using ldsvs lvar by (simp add: dsv_def)
  have m_ones: "is_mat N D (each (\<lambda>_. 1) sq)"
    using m_sq by (rule is_mat_each)
  have m_b1: "is_mat N D (bc (\<lambda>one d. d * one) (each (\<lambda>_. 1) sq) dsv)"
    using m_ones ldsv by (rule is_mat_bc)
  have m_dsq: "is_mat N D dsq"
    unfolding dsq_def using m_b1 by (rule is_mat_each)
  have m_dsq2: "is_mat N D (each (\<lambda>a. a * 2) dsq)"
    using m_dsq by (rule is_mat_each)
  have m_p2: "is_mat N D (ew (*) (each (\<lambda>a. a * 2) dsq) xm)"
    using m_dsq2 m_xm by (rule is_mat_ew)
  have m_dx_mean': "is_mat N D dx_mean'"
    unfolding dx_mean'_def using m_dx_mean m_p2 by (rule is_mat_ew)
  have m_t2: "is_mat N D t2"
    unfolding t2_def using m_dx_mean' by (rule is_mat_each)
  have ldsm: "length dsm = D"
    using m_t2 N by (simp add: dsm_def length_sum_axis0 is_mat_ncols)
  have m_onesx: "is_mat N D (each (\<lambda>_. 1) x)"
    using x by (rule is_mat_each)
  have m_b2: "is_mat N D (bc (\<lambda>one d. d * one) (each (\<lambda>_. 1) x) dsm)"
    using m_onesx ldsm by (rule is_mat_bc)
  have m_b3: "is_mat N D (each (\<lambda>a. a / real N) (bc (\<lambda>one d. d * one) (each (\<lambda>_. 1) x) dsm))"
    using m_b2 by (rule is_mat_each)
  have m_dx: "is_mat N D dx"
    unfolding dx_def using m_dx_mean' m_b3 by (rule is_mat_ew)
  have rdxm': "length dx_mean' = N" "\<And>i. i < N \<Longrightarrow> length (dx_mean' ! i) = D"
    using m_dx_mean' by (simp_all add: is_mat_def)

  have dsv_j: "dsv ! j = (\<Sum>i<N. dout ! i ! j * gamma ! j * (- 1) * xm ! i ! j / (svs ! j) ^ 2)
                 * (1 / 2) * (var ! j + e) powr (- (1 / 2))" if j: "j < D" for j
  proof -
    have "dsvs ! j = (\<Sum>i<N. t1 ! i ! j)"
      unfolding dsvs_def using m_t1 N j by (rule nth_sum_axis0_sum)
    also have "\<dots> = (\<Sum>i<N. dout ! i ! j * gamma ! j * (- 1) * xm ! i ! j / (svs ! j) ^ 2)"
    proof (rule sum.cong)
      fix i assume "i \<in> {..<N}"
      then have i: "i < N" by simp
      show "t1 ! i ! j = dout ! i ! j * gamma ! j * (- 1) * xm ! i ! j / (svs ! j) ^ 2"
        using i j lsvs g rd rxm
        by (simp add: t1_def dx_hat_def rows)
    qed simp
    finally show ?thesis
      using j ldsvs lvar by (simp add: dsv_def)
  qed
  have dxm'_ij: "dx_mean' ! i ! j
      = dout ! i ! j * gamma ! j / svs ! j + dsv ! j * 1 / real N * 2 * xm ! i ! j"
    if "i < N" "j < D" for i j
    using that lsvs ldsv g rd rxm rsq
    by (simp add: dx_mean'_def dsq_def dx_mean_def dx_hat_def rows)
  have dx_ij: "dx ! i ! j = dx_mean' ! i ! j + (\<Sum>k<N. dx_mean' ! k ! j * (- 1)) * 1 / real N"
    if i: "i < N" and j: "j < D" for i j
  proof -
    have "dsm ! j = (\<Sum>k<N. t2 ! k ! j)"
      unfolding dsm_def using m_t2 N j by (rule nth_sum_axis0_sum)
    also have "\<dots> = (\<Sum>k<N. dx_mean' ! k ! j * (- 1))"
      using j rdxm' by (intro sum.cong) (simp_all add: t2_def rows)
    finally show ?thesis
      using i j ldsm rdxm' rx len by (simp add: dx_def rows)
  qed

  \<comment> \<open>the closed form\<close>
  define c where "c = map2 (\<lambda>gm v. 1 / real N * gm * (v + e) powr (- (1 / 2))) gamma var"
  define u1 where "u1 = bc (-) (each (\<lambda>a. real N * a) dout) (sum_axis0 dout)"
  define u2 where "u2 = bc (*) (bc (/) xm (map (\<lambda>v. v + e) var)) (sum_axis0 (ew (*) dout xm))"
  define dxa where "dxa = bc (\<lambda>t c. c * t) (ew (-) u1 u2) c"
  have alt: "batchnorm_backward_alt dout cache
      = Inr (dxa, sum_axis0 (ew (*) dout (bc (/) xm svs)), sum_axis0 dout)"
    using N
    by (simp add: batchnorm_backward_alt_def cache Let_def dxa_def u1_def u2_def c_def xm_def)
  have lc: "length c = D"
    using g lvar by (simp add: c_def)
  have m_nd: "is_mat N D (each (\<lambda>a. real N * a) dout)"
    using d by (rule is_mat_each)
  have lsd: "length (sum_axis0 dout) = D"
    using d N by (simp add: length_sum_axis0 is_mat_ncols)
  have m_u1: "is_mat N D u1"
    unfolding u1_def using m_nd lsd by (rule is_mat_bc)
  have m_dxm: "is_mat N D (ew (*) dout xm)"
    using d m_xm by (rule is_mat_ew)
  have lsdx: "length (sum_axis0 (ew (*) dout xm)) = D"
    using m_dxm N by (simp add: length_sum_axis0 is_mat_ncols)
  have lve: "length (map (\<lambda>v. v + e) var) = D"
    using lvar by simp
  have m_q: "is_mat N D (bc (/) xm (map (\<lambda>v. v + e) var))"
    using m_xm lve by (rule is_mat_bc)
  have m_u2: "is_mat N D u2"
    unfolding u2_def using m_q lsdx by (rule is_mat_bc)
  have m_u: "is_mat N D (ew (-) u1 u2)"
    using m_u1 m_u2 by (rule is_mat_ew)
  have m_dxa: "is_mat N D dxa"
    unfolding dxa_def using m_u lc by (rule is_mat_bc)
  have dxa_ij: "dxa ! i ! j = 1 / real N * gamma ! j * (var ! j + e) powr (- (1 / 2))
      * (real N * dout ! i ! j - (\<Sum>k<N. dout ! k ! j)
         - xm ! i ! j / (var ! j + e) * (\<Sum>k<N. dout ! k ! j * xm ! k ! j))"
    if i: "i < N" and j: "j < D" for i j
  proof -
    have "sum_axis0 (ew (*) dout xm) ! j = (\<Sum>k<N. ew (*) dout xm ! k ! j)"
      using m_dxm N j by (rule nth_sum_axis0_sum)
    also have "\<dots> = (\<Sum>k<N. dout ! k ! j * xm ! k ! j)"
      using j rd rxm by (intro sum.cong) (simp_all add: rows)
    finally have s2: "sum_axis0 (ew (*) dout xm) ! j = (\<Sum>k<N. dout ! k ! j * xm ! k ! j)" .
    have s1: "sum_axis0 dout ! j = (\<Sum>k<N. dout ! k ! j)"
      using d N j by (rule nth_sum_axis0_sum)
    show ?thesis
      using i j g lvar lsd lsdx rd rxm
      by (simp add: dxa_def u1_def u2_def c_def s1 s2 rows)
  qed

  have "dxa = dx"
  proof (rule mat_eqI [OF m_dxa m_dx])
    fix i j assume i: "i < N" and j: "j < D"
    have "dx_mean' ! i ! j + (\<Sum>k<N. dx_mean' ! k ! j * (- 1)) * 1 / real N
        = 1 / real N * gamma ! j * (var ! j + e) powr (- (1 / 2))
          * (real N * dout ! i ! j - (\<Sum>k<N. dout ! k ! j)
             - xm ! i ! j / (var ! j + e) * (\<Sum>k<N. dout ! k ! j * xm ! k ! j))"
    proof (rule staged_closed_form [OF N pos [OF j] xm_sum [OF j] _ dsv_j [OF j] _ i])
      show "svs ! j = (var ! j + e) powr (1 / 2)"
        using j lvar by (simp add: svs_def)
    next
      fix k assume "k < N"
      then show "dx_mean' ! k ! j
          = dout ! k ! j * gamma ! j / svs ! j + dsv ! j * 1 / real N * 2 * xm ! k ! j"
        using j by (rule dxm'_ij)
    qed
    then show "dxa ! i ! j = dx ! i ! j"
      using i j by (simp only: dxa_ij dx_ij)
  qed
  then show ?thesis
    by (simp add: alt staged)
qed

theorem batchnorm_backward_alt_eq_witness:
  "\<exists>out cache bn_param'.
     batchnorm_forward [[1, 2], [3, 4]] [1, 1] [0, 0]
       \<lparr>bn_mode = ''train'', bn_eps = Some (1 / 2), bn_momentum = None,
        bn_running_mean = None, bn_running_var = None\<rparr> = Inr (out, Some cache, bn_param') \<and>
     is_mat 2 2 [[1, 2], [3, 4 :: real]] \<and> is_mat 2 2 [[1, 0], [0, 1 :: real]] \<and>
     batchnorm_backward_alt [[1, 0], [0, 1]] cache
       = Inr (batchnorm_backward [[1, 0], [0, 1]] cache)"
proof -
  let ?bp = "\<lparr>bn_mode = ''train'', bn_eps = Some (1 / 2 :: real), bn_momentum = None,
              bn_running_mean = None, bn_running_var = None\<rparr>"
  obtain out cache bn_param' where
    r: "batchnorm_forward [[1, 2], [3, 4]] [1, 1] [0, 0] ?bp = Inr (out, Some cache, bn_param')"
    by (simp add: batchnorm_forward_def Let_def)
  have x: "is_mat 2 2 [[1, 2], [3, 4 :: real]]" and d: "is_mat 2 2 [[1, 0], [0, 1 :: real]]"
    by (simp_all add: is_mat_def)
  have "batchnorm_backward_alt [[1, 0], [0, 1]] cache
      = Inr (batchnorm_backward [[1, 0], [0, 1]] cache)"
    using batchnorm_backward_alt_eq [OF r x _ _ d] by simp
  then show ?thesis
    using r x d by blast
qed

text \<open>
  On the empty batch the two passes differ: the forward pass returns a cache with \<open>N = 0\<close>,
  the staged pass returns empty gradients, and the closed form raises
  \<^verbatim>\<open>ZeroDivisionError\<close> at \<^verbatim>\<open>df = 1. / N\<close>.
\<close>

theorem batchnorm_backward_alt_empty_batch:
  "batchnorm_forward [] [] []
     \<lparr>bn_mode = ''train'', bn_eps = None, bn_momentum = None,
      bn_running_mean = None, bn_running_var = None\<rparr>
   = Inr ([],
          Some \<lparr>c_x = [], c_N = 0, c_sample_mean = [], c_x_mean = [], c_x_mean_squ = [],
                c_sample_var = [], c_sample_var_sqrt = [], c_x_hat = [], c_gamma = [],
                c_beta = [], c_eps = 1 / 100000\<rparr>,
          \<lparr>bn_mode = ''train'', bn_eps = None, bn_momentum = None,
           bn_running_mean = Some [], bn_running_var = Some []\<rparr>) \<and>
   batchnorm_backward []
     \<lparr>c_x = [], c_N = 0, c_sample_mean = [], c_x_mean = [], c_x_mean_squ = [],
      c_sample_var = [], c_sample_var_sqrt = [], c_x_hat = [], c_gamma = [],
      c_beta = [], c_eps = 1 / 100000\<rparr> = ([], [], []) \<and>
   batchnorm_backward_alt []
     \<lparr>c_x = [], c_N = 0, c_sample_mean = [], c_x_mean = [], c_x_mean_squ = [],
      c_sample_var = [], c_sample_var_sqrt = [], c_x_hat = [], c_gamma = [],
      c_beta = [], c_eps = 1 / 100000\<rparr> = Inl ZeroDivisionError \<and>
   is_mat 0 0 ([] :: mat)"
  by (simp add: batchnorm_forward_def batchnorm_backward_def batchnorm_backward_alt_def
      Let_def sum_axis0_def ncols_def bc_def ew_def each_def is_mat_def)

section \<open>The margin loss\<close>

lemma labels_valid:
  assumes "\<forall>k \<in> set y. 0 \<le> k \<and> k < int C"
  shows "labels C y = Inr (map nat y)"
proof -
  have "norm_index C k = Some (nat k)" if "k \<in> set y" for k
    using assms that by (simp add: norm_index_def)
  then show ?thesis
    by (simp add: labels_def list_all_iff)
qed




lemma sum_list_rows:
  fixes m :: mat
  assumes "length m = N" and "\<And>i. i < N \<Longrightarrow> length (m ! i) = C"
  shows "sum_list (map sum_list m) = (\<Sum>i<N. \<Sum>j<C. m ! i ! j)"
proof -
  have "sum_list (map sum_list m) = (\<Sum>i<N. sum_list (m ! i))"
    using assms(1) by (simp add: sum_list_sum_nth atLeast0LessThan)
  also have "\<dots> = (\<Sum>i<N. \<Sum>j<C. m ! i ! j)"
    by (rule sum.cong) (simp_all add: sum_list_sum_nth atLeast0LessThan assms(2))
  finally show ?thesis .
qed

lemma svm_loss_unfold:
  assumes "\<forall>k \<in> set y. 0 \<le> k \<and> k < int (ncols x)"
  shows "svm_loss x y eps =
    Inr (sum_list (map sum_list (svm_margins x (map nat y))) / (real (length x) + eps),
         each (\<lambda>a. a / (real (length x) + eps))
           (map2 (\<lambda>(r, k) n. r[k := r ! k - real n])
              (zip (ew (\<lambda>d a. if a > 0 then 1 else d) (each (\<lambda>_. 0) x)
                      (svm_margins x (map nat y))) (map nat y))
              (map (\<lambda>r. length (filter (\<lambda>a. a > 0) r)) (svm_margins x (map nat y)))))"
  by (simp add: svm_loss_def labels_valid [OF assms] Let_def)

lemma svm_margins_row:
  assumes "length x = N" and "length ys = N" and "i < N"
  shows "svm_margins x ys ! i = (map (\<lambda>a. max 0 (a - x ! i ! (ys ! i) + 1)) (x ! i))[ys ! i := 0]"
  using assms by (simp add: svm_margins_def Let_def)

lemma length_svm_margins:
  "length x = N \<Longrightarrow> length ys = N \<Longrightarrow> length (svm_margins x ys) = N"
  by (simp add: svm_margins_def Let_def)

lemma svm_margins_nth:
  assumes x: "is_mat N C x" and y: "length y = N" and v: "\<forall>k \<in> set y. 0 \<le> k \<and> k < int C"
    and i: "i < N" and j: "j < C"
  shows "svm_margins x (map nat y) ! i ! j = margin x y i j"
proof -
  have len: "length x = N" and row: "length (x ! i) = C"
    using x i by (simp_all add: is_mat_def)
  have yi: "0 \<le> y ! i" "y ! i < int C"
    using v y i by (auto simp: all_set_conv_all_nth)
  then have eq: "int j = y ! i \<longleftrightarrow> j = nat (y ! i)"
    by auto
  show ?thesis
    using len y i j row yi
    by (simp add: svm_margins_row [of x N] margin_def eq nth_list_update)
qed


lemma labels_in_range:
  assumes "is_mat N C x" and "length y = N" and "\<forall>k \<in> set y. 0 \<le> k \<and> k < int C"
  shows "\<forall>k \<in> set y. 0 \<le> k \<and> k < int (ncols x)"
proof (cases "N = 0")
  case True
  then show ?thesis using assms(2) by simp
next
  case False
  then show ?thesis using assms(1,3) by (simp add: is_mat_ncols)
qed

lemma svm_dx_row:
  assumes x: "is_mat N C x" and y: "length y = N" and v: "\<forall>k \<in> set y. 0 \<le> k \<and> k < int C"
    and i: "i < N"
  defines "m \<equiv> svm_margins x (map nat y) ! i"
  shows "map2 (\<lambda>(r, k) n. r[k := r ! k - real n])
           (zip (ew (\<lambda>d a. if a > 0 then 1 else d) (each (\<lambda>_. 0) x)
                   (svm_margins x (map nat y))) (map nat y))
           (map (\<lambda>r. length (filter (\<lambda>a. a > 0) r)) (svm_margins x (map nat y))) ! i
         = (map (\<lambda>a. if a > 0 then 1 else 0) m)
             [nat (y ! i) := - real (length (filter (\<lambda>a. a > 0) m))]"
    and "length m = C" and "m ! nat (y ! i) = 0" and "nat (y ! i) < C"
proof -
  have len: "length x = N" and row: "length (x ! i) = C"
    using x i by (simp_all add: is_mat_def)
  have lm: "length (svm_margins x (map nat y)) = N"
    using len y by (simp add: length_svm_margins)
  have mrow: "m = (map (\<lambda>a. max 0 (a - x ! i ! nat (y ! i) + 1)) (x ! i))[nat (y ! i) := 0]"
    unfolding m_def using len y i by (simp add: svm_margins_row [of x N])
  show lmC: "length m = C"
    using row by (simp add: mrow)
  have "0 \<le> y ! i" "y ! i < int C"
    using v y i by (auto simp: all_set_conv_all_nth)
  then show k: "nat (y ! i) < C"
    by simp
  show m0: "m ! nat (y ! i) = 0"
    using k row by (simp add: mrow)
  have z: "map2 (\<lambda>d a. if a > 0 then 1 else d) (map (\<lambda>_. 0) (x ! i)) m
           = map (\<lambda>a. if a > 0 then 1 else (0::real)) m"
    using row lmC by (intro nth_equalityI) simp_all
  show "map2 (\<lambda>(r, k) n. r[k := r ! k - real n])
           (zip (ew (\<lambda>d a. if a > 0 then 1 else d) (each (\<lambda>_. 0) x)
                   (svm_margins x (map nat y))) (map nat y))
           (map (\<lambda>r. length (filter (\<lambda>a. a > 0) r)) (svm_margins x (map nat y))) ! i
         = (map (\<lambda>a. if a > 0 then 1 else 0) m)
             [nat (y ! i) := - real (length (filter (\<lambda>a. a > 0) m))]"
    using len y i lm k lmC m0 z by (simp add: rows m_def)
qed


text \<open>
  C4.  For scores \<open>x\<close> of shape \<open>(N, C)\<close> and labels \<open>0 \<le> y[i] < C\<close>, \<^verbatim>\<open>svm_loss\<close> returns
  the sum over all \<open>i\<close> and \<open>j\<close> of the margins (zero at \<open>j = y_i\<close>) divided by \<open>N + eps\<close>,
  and a gradient of the shape of \<open>x\<close> with \<open>dx[i,j] = 1\<close> where the margin is positive,
  \<open>dx[i,y_i]\<close> minus the number of positive margins of example \<open>i\<close>, and \<open>0\<close> elsewhere,
  all divided by \<open>N + eps\<close> (\<open>eps\<close> is \<open>1e-3\<close> by default; \<open>N + eps > 0\<close>).
\<close>

theorem svm_loss_value:
  assumes x: "is_mat N C x" and y: "length y = N"
    and v: "\<forall>k \<in> set y. 0 \<le> k \<and> k < int C"
    and e: "0 < real N + eps"
  shows "\<exists>dx. svm_loss x y eps
             = Inr ((\<Sum>i<N. \<Sum>j<C. margin x y i j) / (real N + eps), dx) \<and>
           is_mat N C dx \<and>
           (\<forall>i<N. \<forall>j<C. dx ! i ! j =
              (if int j = y ! i then - real (card {j'. j' < C \<and> 0 < margin x y i j'})
               else if 0 < margin x y i j then 1 else 0) / (real N + eps))"
proof -
  let ?ys = "map nat y"
  let ?m = "svm_margins x ?ys"
  define dx2 where "dx2 = map2 (\<lambda>(r, k) n. r[k := r ! k - real n])
           (zip (ew (\<lambda>d a. if a > 0 then 1 else d) (each (\<lambda>_. 0) x) ?m) ?ys)
           (map (\<lambda>r. length (filter (\<lambda>a. a > 0) r)) ?m)"
  let ?dx = "each (\<lambda>a. a / (real N + eps)) dx2"
  have len: "length x = N"
    using x by (simp add: is_mat_def)
  have lm: "length ?m = N"
    using len y by (simp add: length_svm_margins)
  have mC: "length (?m ! i) = C" if "i < N" for i
    using svm_dx_row(2) [OF x y v that] .
  have mij: "?m ! i ! j = margin x y i j" if "i < N" "j < C" for i j
    using x y v that by (rule svm_margins_nth)
  have unf: "svm_loss x y eps = Inr (sum_list (map sum_list ?m) / (real N + eps), ?dx)"
    using svm_loss_unfold [OF labels_in_range [OF x y v], of eps] len by (simp add: dx2_def)
  have "sum_list (map sum_list ?m) = (\<Sum>i<N. \<Sum>j<C. ?m ! i ! j)"
    using lm mC by (rule sum_list_rows)
  also have "\<dots> = (\<Sum>i<N. \<Sum>j<C. margin x y i j)"
    by (intro sum.cong refl) (simp add: mij)
  finally have loss: "sum_list (map sum_list ?m) = (\<Sum>i<N. \<Sum>j<C. margin x y i j)" .
  have ldx2: "length dx2 = N"
    using len y lm by (simp add: rows dx2_def)
  have row: "?dx ! i = map (\<lambda>a. a / (real N + eps))
      ((map (\<lambda>a. if a > 0 then 1 else 0) (?m ! i))
         [nat (y ! i) := - real (card {j'. j' < C \<and> 0 < margin x y i j'})])"
    if i: "i < N" for i
  proof -
    have "{j'. j' < length (?m ! i) \<and> 0 < ?m ! i ! j'} = {j'. j' < C \<and> 0 < margin x y i j'}"
      using mC [OF i] mij [OF i] by auto
    then have "length (filter (\<lambda>a. a > 0) (?m ! i)) = card {j'. j' < C \<and> 0 < margin x y i j'}"
      by (simp add: length_filter_conv_card)
    then show ?thesis
      using i ldx2 svm_dx_row(1) [OF x y v i] by (simp add: row_each dx2_def [symmetric])
  qed
  have shape: "is_mat N C ?dx"
    unfolding is_mat_def
  proof (intro conjI ballI)
    show "length ?dx = N"
      using ldx2 by (simp add: length_each)
  next
    fix r assume "r \<in> set ?dx"
    then obtain i where i: "i < length ?dx" and r: "r = ?dx ! i"
      by (auto simp: in_set_conv_nth)
    then have "i < N"
      using ldx2 by (simp add: length_each)
    then show "length r = C"
      using r row mC by simp
  qed
  have el: "?dx ! i ! j =
      (if int j = y ! i then - real (card {j'. j' < C \<and> 0 < margin x y i j'})
       else if 0 < margin x y i j then 1 else 0) / (real N + eps)"
    if i: "i < N" and j: "j < C" for i j
  proof -
    have yi: "0 \<le> y ! i"
      using v y i by (auto simp: all_set_conv_all_nth)
    then have eq: "int j = y ! i \<longleftrightarrow> nat (y ! i) = j"
      by auto
    show ?thesis
      using i j mC [OF i] mij [OF i j] by (simp add: row eq nth_list_update)
  qed
  show ?thesis
    using unf loss shape el by auto
qed

theorem svm_loss_value_witness:
  "is_mat 2 3 [[3, 0, 5], [1, 3, 2 :: real]] \<and> length [0, 2 :: int] = 2 \<and>
   list_all (\<lambda>k. 0 \<le> k \<and> k < int 3) [0, 2] \<and> 0 < real 2 + 1 / 1000 \<and>
   (\<exists>dx. svm_loss [[3, 0, 5], [1, 3, 2]] [0, 2] (1 / 1000)
        = Inr ((\<Sum>i<2. \<Sum>j<3. margin [[3, 0, 5], [1, 3, 2]] [0, 2] i j) / (real 2 + 1 / 1000), dx)
      \<and> is_mat 2 3 dx)"
proof -
  have x: "is_mat 2 3 [[3, 0, 5], [1, 3, 2 :: real]]"
    by (simp add: is_mat_def)
  have v: "\<forall>k \<in> set [0, 2 :: int]. 0 \<le> k \<and> k < int 3"
    by simp
  show ?thesis
    using svm_loss_value [OF x _ v, of "1 / 1000"] x by auto
qed

text \<open>
  With one example of two equal scores the code returns the loss \<open>1 / 1.001\<close>, while the sum
  of the margins divided by \<open>N\<close> is \<open>1\<close>.
\<close>

theorem svm_loss_divisor_counterexample:
  "svm_loss [[0, 0]] [0] (1 / 1000) = Inr (1000 / 1001, [[- (1000 / 1001), 1000 / 1001]]) \<and>
   svm_loss_mean [[0, 0]] [0] = 1 \<and> (1000 / 1001 :: real) \<noteq> 1"
  by (simp add: svm_loss_def svm_margins_def labels_def norm_index_def ncols_def Let_def
      each_def ew_def svm_loss_mean_def margin_def lessThan_Suc eval_nat_numeral)



section \<open>The softmax loss\<close>

lemma row_max_Max: "r \<noteq> [] \<Longrightarrow> row_max r = Max (set r)"
  by (cases r) (simp_all add: row_max_def Max.set_eq_fold [symmetric])

lemma sum_list_map_nth:
  fixes f :: "real \<Rightarrow> real"
  shows "sum_list (map f r) = (\<Sum>k<length r. f (r ! k))"
  by (simp add: sum_list_sum_nth atLeast0LessThan)

lemma softmax_probs_nth:
  assumes "i < length x" and "j < length (x ! i)"
  shows "each (\<lambda>a. a + eps)
           (map (\<lambda>r. map (\<lambda>a. a / sum_list r) r)
              (map (\<lambda>r. map (\<lambda>a. exp (a - row_max r)) r) x)) ! i ! j
         = softmax_prob x i j + eps"
proof -
  have ne: "x ! i \<noteq> []"
    using assms(2) by auto
  show ?thesis
    using assms
    by (simp add: rows row_max_Max [OF ne] softmax_prob_def sum_list_map_nth [of _ "x ! i"])
qed

text \<open>
  C3.  For scores \<open>x\<close> of shape \<open>(N, C)\<close> with \<open>C \<ge> 1\<close> and labels \<open>0 \<le> y[i] < C\<close>,
  \<^verbatim>\<open>softmax_loss\<close> returns
  the loss \<open>- sum(log(prob[i, y_i] + eps)) / (N + eps)\<close>, where \<open>prob\<close> are the softmax
  probabilities computed after subtracting the maximum of the row, and a gradient of the
  shape of \<open>x\<close> that is \<open>prob + eps\<close>, decremented by 1 at the label, all divided by
  \<open>N + eps\<close> (\<open>eps\<close> is \<open>1e-8\<close> by default; \<open>eps \<ge> 0\<close> and \<open>N + eps > 0\<close>).
\<close>

theorem softmax_loss_value:
  assumes x: "is_mat N C x" and y: "length y = N"
    and v: "\<forall>k \<in> set y. 0 \<le> k \<and> k < int C"
    and e: "0 \<le> eps" and ne: "0 < real N + eps" and C: "0 < C"
  shows "\<exists>dx. softmax_loss x y eps
             = Inr (- (\<Sum>i<N. ln (softmax_prob x i (nat (y ! i)) + eps)) / (real N + eps), dx) \<and>
           is_mat N C dx \<and>
           (\<forall>i<N. \<forall>j<C. dx ! i ! j =
              (softmax_prob x i j + eps - (if int j = y ! i then 1 else 0)) / (real N + eps))"
proof -
  define probs where "probs = each (\<lambda>a. a + eps)
           (map (\<lambda>r. map (\<lambda>a. a / sum_list r) r)
              (map (\<lambda>r. map (\<lambda>a. exp (a - row_max r)) r) x))"
  define dx1 where "dx1 = map2 (\<lambda>r k. r[k := r ! k - 1]) probs (map nat y)"
  let ?dx = "each (\<lambda>a. a / (real N + eps)) dx1"
  have len: "length x = N" and row: "\<And>i. i < N \<Longrightarrow> length (x ! i) = C"
    using x by (simp_all add: is_mat_def)
  have yi: "0 \<le> y ! i \<and> y ! i < int C" if "i < N" for i
    using v y that by (auto simp: all_set_conv_all_nth)
  have nonempty: "\<not> list_ex (\<lambda>r. r = []) x"
  proof
    assume "list_ex (\<lambda>r. r = []) x"
    then obtain i where i: "i < length x" and "x ! i = []"
      by (auto simp: list_ex_iff in_set_conv_nth)
    then have "C = 0"
      using row [of i] len by simp
    then show False
      using yi [of i] i len by auto
  qed
  have lp: "length probs = N"
    using len by (simp add: probs_def rows)
  have lpr: "length (probs ! i) = C" if "i < N" for i
    using that len row by (simp add: probs_def rows)
  have pij: "probs ! i ! j = softmax_prob x i j + eps" if "i < N" "j < C" for i j
    unfolding probs_def using that len row by (intro softmax_probs_nth) simp_all
  have unf: "softmax_loss x y eps
      = Inr (- sum_list (map2 (\<lambda>r k. ln (r ! k)) probs (map nat y)) / (real N + eps), ?dx)"
    using nonempty len labels_valid [OF labels_in_range [OF x y v]]
    by (simp add: softmax_loss_def Let_def probs_def dx1_def)
  have "sum_list (map2 (\<lambda>r k. ln (r ! k)) probs (map nat y))
      = (\<Sum>i<N. map2 (\<lambda>r k. ln (r ! k)) probs (map nat y) ! i)"
    using lp y by (simp add: sum_list_sum_nth atLeast0LessThan)
  also have "\<dots> = (\<Sum>i<N. ln (softmax_prob x i (nat (y ! i)) + eps))"
  proof (rule sum.cong)
    fix i assume "i \<in> {..<N}"
    then have i: "i < N" by simp
    have "nat (y ! i) < C"
      using yi [OF i] by linarith
    then show "map2 (\<lambda>r k. ln (r ! k)) probs (map nat y) ! i
        = ln (softmax_prob x i (nat (y ! i)) + eps)"
      using i lp y by (simp add: pij)
  qed simp
  finally have loss: "sum_list (map2 (\<lambda>r k. ln (r ! k)) probs (map nat y))
      = (\<Sum>i<N. ln (softmax_prob x i (nat (y ! i)) + eps))" .
  have ldx1: "length dx1 = N"
    using lp y by (simp add: dx1_def)
  have drow: "?dx ! i = map (\<lambda>a. a / (real N + eps))
      ((probs ! i)[nat (y ! i) := probs ! i ! nat (y ! i) - 1])" if "i < N" for i
    using that ldx1 lp y by (simp add: row_each) (simp add: dx1_def)
  have shape: "is_mat N C ?dx"
    unfolding is_mat_def
  proof (intro conjI ballI)
    show "length ?dx = N"
      using ldx1 by (simp add: length_each)
  next
    fix r assume "r \<in> set ?dx"
    then obtain i where "i < length ?dx" and r: "r = ?dx ! i"
      by (auto simp: in_set_conv_nth)
    then have "i < N"
      using ldx1 by (simp add: length_each)
    then show "length r = C"
      using r drow lpr by simp
  qed
  have el: "?dx ! i ! j
      = (softmax_prob x i j + eps - (if int j = y ! i then 1 else 0)) / (real N + eps)"
    if i: "i < N" and j: "j < C" for i j
  proof -
    have eq: "int j = y ! i \<longleftrightarrow> nat (y ! i) = j"
      using yi [OF i] by auto
    show ?thesis
      using i j lpr [OF i] pij [OF i j] by (simp add: drow eq nth_list_update)
  qed
  show ?thesis
    using unf loss shape el by auto
qed

text \<open>
  With one example of a single class the code returns the gradient \<open>1e-8 / (1 + 1e-8)\<close>,
  while the probability plus \<open>eps\<close>, decremented by 1 and divided by \<open>N\<close>, is \<open>1e-8\<close>.
\<close>

theorem softmax_loss_divisor_counterexample:
  "softmax_loss [[0]] [0] (1 / 100000000)
     = Inr (- ln (100000001 / 100000000) / (100000001 / 100000000), [[1 / 100000001]]) \<and>
   softmax_dx_mean [[0]] [0] (1 / 100000000) 0 0 = 1 / 100000000 \<and>
   (1 / 100000001 :: real) \<noteq> 1 / 100000000"
  by (simp add: softmax_loss_def labels_def norm_index_def ncols_def Let_def each_def row_max_def
      softmax_dx_mean_def softmax_prob_def)

theorem softmax_loss_value_witness:
  "is_mat 1 2 [[0, 0 :: real]] \<and> length [1 :: int] = 1 \<and>
   list_all (\<lambda>k. 0 \<le> k \<and> k < int 2) [1] \<and> (0 :: real) \<le> 1 / 100000000 \<and>
   0 < real 1 + 1 / 100000000 \<and>
   (\<exists>dx. softmax_loss [[0, 0]] [1] (1 / 100000000)
        = Inr (- (\<Sum>i<1. ln (softmax_prob [[0, 0]] i (nat ([1] ! i)) + 1 / 100000000))
                 / (real 1 + 1 / 100000000), dx)
      \<and> is_mat 1 2 dx)"
proof -
  have x: "is_mat 1 2 [[0, 0 :: real]]"
    by (simp add: is_mat_def)
  have v: "\<forall>k \<in> set [1 :: int]. 0 \<le> k \<and> k < int 2"
    by simp
  show ?thesis
    using softmax_loss_value [OF x _ v, of "1 / 100000000"] x by auto
qed

section \<open>The forward pass of the convolution\<close>

lemma foldM_append:
  "foldM f (xs @ ys) s = (case foldM f xs s of Inl e \<Rightarrow> Inl e | Inr s' \<Rightarrow> foldM f ys s')"
  by (induction xs arbitrary: s) (simp_all split: sum.splits)

text \<open>A loop over \<open>0, \<dots>, M - 1\<close> whose step \<open>m\<close> writes the value \<open>val q\<close> to the cells \<open>q\<close>
  with \<open>Wr m q\<close> and leaves the other cells as they are.\<close>

lemma foldM_assign:
  assumes step: "\<And>m s. m < M \<Longrightarrow> I s \<Longrightarrow>
      \<exists>s'. g m s = Inr s' \<and> I s' \<and> (\<forall>q. rd s' q = (if Wr m q then val q else rd s q))"
    and init: "I s"
  shows "\<exists>s'. foldM g [0..<M] s = Inr s' \<and> I s' \<and>
           (\<forall>q. rd s' q = (if \<exists>m<M. Wr m q then val q else rd s q))"
  using step
proof (induction M)
  case 0
  then show ?case using init by simp
next
  case (Suc M)
  have "\<exists>s'. foldM g [0..<M] s = Inr s' \<and> I s' \<and>
           (\<forall>q. rd s' q = (if \<exists>m<M. Wr m q then val q else rd s q))"
  proof (rule Suc.IH)
    fix m s assume "m < M" and "I s"
    then show "\<exists>s'. g m s = Inr s' \<and> I s' \<and>
        (\<forall>q. rd s' q = (if Wr m q then val q else rd s q))"
      using Suc.prems [of m s] by simp
  qed
  then obtain s1 where
    s1: "foldM g [0..<M] s = Inr s1" "I s1"
      "\<forall>q. rd s1 q = (if \<exists>m<M. Wr m q then val q else rd s q)"
    by (elim exE conjE)
  have "\<exists>s'. g M s1 = Inr s' \<and> I s' \<and> (\<forall>q. rd s' q = (if Wr M q then val q else rd s1 q))"
    using s1(2) by (intro Suc.prems) simp
  then obtain s2 where
    s2: "g M s1 = Inr s2" "I s2" "\<forall>q. rd s2 q = (if Wr M q then val q else rd s1 q)"
    by (elim exE conjE)
  have "foldM g [0..<Suc M] s = Inr s2"
    using s1(1) s2(1) by (simp add: foldM_append)
  moreover have "rd s2 q = (if \<exists>m<Suc M. Wr m q then val q else rd s q)" for q
    using s1(3) s2(3) by (auto simp: less_Suc_eq)
  ultimately show ?case
    using s2(2) by (intro exI [of _ s2]) simp
qed

text \<open>A loop over \<open>0, \<dots>, M - 1\<close> whose step \<open>m\<close> adds \<open>d m q\<close> to every cell \<open>q\<close>.\<close>

lemma foldM_accumulate:
  fixes rd :: "'s \<Rightarrow> 'q \<Rightarrow> real"
  assumes step: "\<And>m s. m < M \<Longrightarrow> I s \<Longrightarrow>
      \<exists>s'. g m s = Inr s' \<and> I s' \<and> (\<forall>q. rd s' q = rd s q + d m q)"
    and init: "I s"
  shows "\<exists>s'. foldM g [0..<M] s = Inr s' \<and> I s' \<and>
           (\<forall>q. rd s' q = rd s q + (\<Sum>m<M. d m q))"
  using step
proof (induction M)
  case 0
  then show ?case using init by simp
next
  case (Suc M)
  have "\<exists>s'. foldM g [0..<M] s = Inr s' \<and> I s' \<and>
           (\<forall>q. rd s' q = rd s q + (\<Sum>m<M. d m q))"
  proof (rule Suc.IH)
    fix m s assume "m < M" and "I s"
    then show "\<exists>s'. g m s = Inr s' \<and> I s' \<and> (\<forall>q. rd s' q = rd s q + d m q)"
      using Suc.prems [of m s] by simp
  qed
  then obtain s1 where
    s1: "foldM g [0..<M] s = Inr s1" "I s1" "\<forall>q. rd s1 q = rd s q + (\<Sum>m<M. d m q)"
    by (elim exE conjE)
  have "\<exists>s'. g M s1 = Inr s' \<and> I s' \<and> (\<forall>q. rd s' q = rd s1 q + d M q)"
    using s1(2) by (intro Suc.prems) simp
  then obtain s2 where
    s2: "g M s1 = Inr s2" "I s2" "\<forall>q. rd s2 q = rd s1 q + d M q"
    by (elim exE conjE)
  have "foldM g [0..<Suc M] s = Inr s2"
    using s1(1) s2(1) by (simp add: foldM_append)
  moreover have "rd s2 q = rd s q + (\<Sum>m<Suc M. d m q)" for q
    using s1(3) s2(3) by simp
  ultimately show ?case
    using s2(2) by (intro exI [of _ s2]) simp
qed


lemma wf4D:
  assumes "wf4 a" and "shape4 a = (N, C, H, W)"
  shows "length (data4 a) = N"
    and "n < N \<Longrightarrow> length (data4 a ! n) = C"
    and "n < N \<Longrightarrow> c < C \<Longrightarrow> length (data4 a ! n ! c) = H"
    and "n < N \<Longrightarrow> c < C \<Longrightarrow> h < H \<Longrightarrow> length (data4 a ! n ! c ! h) = W"
  using assms by (simp_all add: wf4_def list_all_length)

lemma wf4I:
  assumes "shape4 a = (N, C, H, W)" and "length (data4 a) = N"
    and "\<And>n. n < N \<Longrightarrow> length (data4 a ! n) = C"
    and "\<And>n c. n < N \<Longrightarrow> c < C \<Longrightarrow> length (data4 a ! n ! c) = H"
    and "\<And>n c h. n < N \<Longrightarrow> c < C \<Longrightarrow> h < H \<Longrightarrow> length (data4 a ! n ! c ! h) = W"
  shows "wf4 a"
  using assms by (simp add: wf4_def list_all_length)

lemma wf4_zeros4: "wf4 (zeros4 (N, C, H, W))"
  by (rule wf4I [of _ N C H W]) (simp_all add: zeros4_def)

lemma wf4_ones4: "wf4 (ones4 (N, C, H, W))"
  by (rule wf4I [of _ N C H W]) (simp_all add: ones4_def)

lemma at4_zeros4:
  "n < N \<Longrightarrow> c < C \<Longrightarrow> h < H \<Longrightarrow> w < W \<Longrightarrow> at4 (zeros4 (N, C, H, W)) n c h w = 0"
  by (simp add: at4_def zeros4_def)

lemma np_pad_shape: "shape4 x = (N, C, H, W) \<Longrightarrow> shape4 (np_pad p x) = (N, C, H + 2 * p, W + 2 * p)"
  by (simp add: np_pad_def)

lemma np_pad_chan:
  assumes "wf4 x" and "shape4 x = (N, C, H, W)" and "n < N" and "c < C"
  shows "data4 (np_pad p x) ! n ! c =
           replicate p (replicate (W + 2 * p) 0)
           @ map (\<lambda>row. replicate p 0 @ row @ replicate p 0) (data4 x ! n ! c)
           @ replicate p (replicate (W + 2 * p) 0)"
  using assms wf4D(1,2) [OF assms(1,2)] by (simp add: np_pad_def)

lemma np_pad_row:
  assumes x: "wf4 x" and sh: "shape4 x = (N, C, H, W)" and n: "n < N" and c: "c < C"
    and h: "h < H + 2 * p"
  shows "data4 (np_pad p x) ! n ! c ! h =
           (if p \<le> h \<and> h < H + p
            then replicate p 0 @ data4 x ! n ! c ! (h - p) @ replicate p 0
            else replicate (W + 2 * p) 0)"
proof -
  have len: "length (data4 x ! n ! c) = H"
    using wf4D(3) [OF x sh n c] .
  show ?thesis
    using h len by (auto simp: np_pad_chan [OF x sh n c] nth_append)
qed

lemma wf4_np_pad:
  assumes x: "wf4 x" and sh: "shape4 x = (N, C, H, W)"
  shows "wf4 (np_pad p x)"
proof (rule wf4I [OF np_pad_shape [OF sh]])
  show "length (data4 (np_pad p x)) = N"
    using wf4D(1) [OF x sh] sh by (simp add: np_pad_def)
next
  fix n assume n: "n < N"
  show "length (data4 (np_pad p x) ! n) = C"
    using wf4D(1,2) [OF x sh] n sh by (simp add: np_pad_def)
next
  fix n c assume n: "n < N" and c: "c < C"
  show "length (data4 (np_pad p x) ! n ! c) = H + 2 * p"
    using wf4D(3) [OF x sh n c] by (simp add: np_pad_chan [OF x sh n c])
next
  fix n c h assume n: "n < N" and c: "c < C" and h: "h < H + 2 * p"
  show "length (data4 (np_pad p x) ! n ! c ! h) = W + 2 * p"
    using wf4D(4) [OF x sh n c, of "h - p"] h by (auto simp: np_pad_row [OF x sh n c h])
qed

lemma at4_np_pad:
  assumes x: "wf4 x" and sh: "shape4 x = (N, C, H, W)" and n: "n < N" and c: "c < C"
    and h: "h < H + 2 * p" and w: "w < W + 2 * p"
  shows "at4 (np_pad p x) n c h w = padded x p n c h w"
proof (cases "p \<le> h \<and> h < H + p")
  case True
  then have "length (data4 x ! n ! c ! (h - p)) = W"
    using wf4D(4) [OF x sh n c, of "h - p"] by auto
  then show ?thesis
    using True w by (auto simp: at4_def padded_def sh np_pad_row [OF x sh n c h] nth_append)
next
  case False
  then show ?thesis
    using w by (auto simp: at4_def padded_def sh np_pad_row [OF x sh n c h])
qed


lemma map2_concat:
  assumes "length xss = length yss"
    and "\<And>i. i < length xss \<Longrightarrow> length (xss ! i) = length (yss ! i)"
  shows "map2 f (concat xss) (concat yss) = concat (map2 (map2 f) xss yss)"
  using assms
proof (induction xss arbitrary: yss)
  case Nil
  then show ?case by simp
next
  case (Cons xs xss)
  then obtain ys yss' where yss: "yss = ys # yss'"
    by (cases yss) simp_all
  have l: "length xs = length ys"
    using Cons.prems(2) [of 0] yss by simp
  have "map2 f (concat xss) (concat yss') = concat (map2 (map2 f) xss yss')"
  proof (rule Cons.IH)
    show "length xss = length yss'"
      using Cons.prems(1) yss by simp
  next
    fix i assume "i < length xss"
    then show "length (xss ! i) = length (yss' ! i)"
      using Cons.prems(2) [of "Suc i"] yss by simp
  qed
  then show ?case
    using l yss by simp
qed

lemma length_concat_blocks:
  "(\<And>b. b \<in> set bs \<Longrightarrow> length b = L) \<Longrightarrow> length (concat bs) = length bs * L"
  by (induction bs) simp_all

lemma slice_concat_blocks:
  assumes "\<And>b. b \<in> set bs \<Longrightarrow> length b = L" and "m < length bs"
  shows "slice (m * L) (Suc m * L) (concat bs) = bs ! m"
  using assms
proof (induction bs arbitrary: m)
  case Nil
  then show ?case by simp
next
  case (Cons b bs)
  have lb: "length b = L"
    using Cons.prems(1) by simp
  show ?case
  proof (cases m)
    case 0
    then show ?thesis using lb by (simp add: slice_def)
  next
    case (Suc k)
    have "slice (k * L) (Suc k * L) (concat bs) = bs ! k"
      using Cons.prems Suc by (intro Cons.IH) simp_all
    then show ?thesis
      using lb Suc by (simp add: slice_def)
  qed
qed

lemma np_split_blocks:
  assumes "\<And>b. b \<in> set bs \<Longrightarrow> length b = L" and "length bs = N" and "0 < N"
  shows "np_split (concat bs) N = Inr bs"
proof -
  have len: "length (concat bs) = N * L"
    using length_concat_blocks [of bs L] assms(1,2) by simp
  have "map (\<lambda>m. slice (m * L) (Suc m * L) (concat bs)) [0..<N] = bs"
  proof (rule nth_equalityI)
    show "length (map (\<lambda>m. slice (m * L) (Suc m * L) (concat bs)) [0..<N]) = length bs"
      using assms(2) by simp
  next
    fix m assume "m < length (map (\<lambda>m. slice (m * L) (Suc m * L) (concat bs)) [0..<N])"
    then have m: "m < length bs"
      using assms(2) by simp
    have "slice (m * L) (Suc m * L) (concat bs) = bs ! m"
      using assms(1) m by (rule slice_concat_blocks)
    then show "map (\<lambda>m. slice (m * L) (Suc m * L) (concat bs)) [0..<N] ! m = bs ! m"
      using m assms(2) by (simp del: mult_Suc)
  qed
  then show ?thesis
    using assms(3) len by (simp add: np_split_def)
qed

lemma sum_list_concat_blocks:
  fixes xss :: "real list list"
  shows "sum_list (concat xss) = sum_list (map sum_list xss)"
  by (induction xss) simp_all

lemma dot_concat:
  fixes xss yss :: "real list list"
  assumes "length xss = length yss"
    and "\<And>i. i < length xss \<Longrightarrow> length (xss ! i) = length (yss ! i)"
  shows "sum_list (map2 (*) (concat xss) (concat yss))
       = (\<Sum>i<length xss. sum_list (map2 (*) (xss ! i) (yss ! i)))"
proof -
  have "sum_list (map2 (*) (concat xss) (concat yss))
      = sum_list (map sum_list (map2 (map2 (*)) xss yss))"
    using assms by (simp add: map2_concat sum_list_concat_blocks)
  also have "\<dots> = (\<Sum>i<length xss. sum_list (map2 (*) (xss ! i) (yss ! i)))"
    using assms(1) by (simp add: sum_list_sum_nth atLeast0LessThan)
  finally show ?thesis .
qed

lemma dot_nth:
  fixes xs ys :: "real list"
  assumes "length xs = length ys"
  shows "sum_list (map2 (*) xs ys) = (\<Sum>i<length xs. xs ! i * ys ! i)"
  using assms by (simp add: sum_list_sum_nth atLeast0LessThan)

text \<open>The dot product of two flattened arrays of one shape \<open>(C, A, B)\<close>.\<close>

lemma dot_flatten3:
  assumes a: "length u = C" "\<And>c. c < C \<Longrightarrow> length (u ! c) = A"
      "\<And>c a. c < C \<Longrightarrow> a < A \<Longrightarrow> length (u ! c ! a) = B"
    and b: "length v = C" "\<And>c. c < C \<Longrightarrow> length (v ! c) = A"
      "\<And>c a. c < C \<Longrightarrow> a < A \<Longrightarrow> length (v ! c ! a) = B"
  shows "sum_list (map2 (*) (flatten3 u) (flatten3 v))
       = (\<Sum>c<C. \<Sum>a<A. \<Sum>b<B. u ! c ! a ! b * v ! c ! a ! b)"
proof -
  have lc: "length (concat (u ! c)) = length (concat (v ! c))" if "c < C" for c
    using that a b length_concat_blocks [of "u ! c" B] length_concat_blocks [of "v ! c" B]
    by (simp add: in_set_conv_nth) (metis (no_types) in_set_conv_nth)
  have "sum_list (map2 (*) (flatten3 u) (flatten3 v))
      = (\<Sum>c<C. sum_list (map2 (*) (concat (u ! c)) (concat (v ! c))))"
    unfolding flatten3_def using a(1) b(1) lc by (subst dot_concat) simp_all
  also have "\<dots> = (\<Sum>c<C. \<Sum>a<A. sum_list (map2 (*) (u ! c ! a) (v ! c ! a)))"
  proof (rule sum.cong [OF refl])
    fix c assume "c \<in> {..<C}"
    then have c: "c < C" by simp
    show "sum_list (map2 (*) (concat (u ! c)) (concat (v ! c)))
        = (\<Sum>a<A. sum_list (map2 (*) (u ! c ! a) (v ! c ! a)))"
      using a(2,3) b(2,3) c by (subst dot_concat) simp_all
  qed
  also have "\<dots> = (\<Sum>c<C. \<Sum>a<A. \<Sum>b<B. u ! c ! a ! b * v ! c ! a ! b)"
    using a(3) b(3) by (intro sum.cong refl) (simp add: dot_nth)
  finally show ?thesis .
qed

lemma length_flatten3:
  assumes "length u = C" "\<And>c. c < C \<Longrightarrow> length (u ! c) = A"
      "\<And>c a. c < C \<Longrightarrow> a < A \<Longrightarrow> length (u ! c ! a) = B"
  shows "length (flatten3 u) = C * (A * B)"
proof -
  have "length (concat r) = A * B" if "r \<in> set u" for r
  proof -
    from that obtain c where c: "c < C" "r = u ! c"
      using assms(1) by (auto simp: in_set_conv_nth)
    have "length (concat r) = length r * B"
    proof (rule length_concat_blocks)
      fix q assume "q \<in> set r"
      then obtain a where "a < A" "q = r ! a"
        using c assms(2) by (auto simp: in_set_conv_nth)
      then show "length q = B"
        using c assms(3) by simp
    qed
    then show ?thesis
      using c assms(2) by simp
  qed
  then have "length (concat (map concat u)) = length (map concat u) * (A * B)"
    by (intro length_concat_blocks) auto
  then show ?thesis
    using assms(1) by (simp add: flatten3_def)
qed


lemma length_slice: "hi \<le> length xs \<Longrightarrow> length (slice lo hi xs) = hi - lo"
  by (simp add: slice_def)

lemma nth_slice: "hi \<le> length xs \<Longrightarrow> a < hi - lo \<Longrightarrow> slice lo hi xs ! a = xs ! (lo + a)"
  by (simp add: slice_def)

text \<open>The window \<^verbatim>\<open>img[:, hs:hs+A, ws:ws+B]\<close> of one image.\<close>

lemma window_shape:
  assumes "length img = C" and "\<And>c. c < C \<Longrightarrow> length (img ! c) = Hp"
    and "\<And>c h. c < C \<Longrightarrow> h < Hp \<Longrightarrow> length (img ! c ! h) = Wp"
    and "hs + A \<le> Hp" and "ws + B \<le> Wp"
  defines "win \<equiv> map (\<lambda>ch. map (slice ws (ws + B)) (slice hs (hs + A) ch)) img"
  shows "length win = C"
    and "\<And>c. c < C \<Longrightarrow> length (win ! c) = A"
    and "\<And>c a. c < C \<Longrightarrow> a < A \<Longrightarrow> length (win ! c ! a) = B"
    and "\<And>c a b. c < C \<Longrightarrow> a < A \<Longrightarrow> b < B \<Longrightarrow> win ! c ! a ! b = img ! c ! (hs + a) ! (ws + b)"
proof -
  show "length win = C"
    using assms(1) by (simp add: win_def)
  show la: "length (win ! c) = A" if "c < C" for c
    using that assms(1,2,4) by (simp add: win_def length_slice)
  have row: "win ! c ! a = slice ws (ws + B) (img ! c ! (hs + a))" if "c < C" "a < A" for c a
    using that assms(1,2,4) by (simp add: win_def length_slice nth_slice)
  show "length (win ! c ! a) = B" if "c < C" "a < A" for c a
    using that assms(3) [of c "hs + a"] assms(4,5) by (simp add: row length_slice)
  show "win ! c ! a ! b = img ! c ! (hs + a) ! (ws + b)" if "c < C" "a < A" "b < B" for c a b
    using that assms(3) [of c "hs + a"] assms(4,5) by (simp add: row nth_slice)
qed

lemma conv_step_value:
  assumes xp: "wf4 xp" and xps: "shape4 xp = (N, C, Hp, Wp)"
    and w: "wf4 w" and ws: "shape4 w = (F, C, HH, WW)"
    and N: "0 < N" and k: "k < F"
    and fit: "i * s + HH \<le> Hp" "j * s + WW \<le> Wp"
    and out: "wf4 out" and outs: "shape4 out = (N, F, H', W')"
    and i: "i < H'" and j: "j < W'"
  shows "\<exists>out'. conv_step xp w b N HH WW s i j k out = Inr out' \<and> wf4 out' \<and>
           shape4 out' = (N, F, H', W') \<and>
           (\<forall>n f i' j'. n < N \<longrightarrow> f < F \<longrightarrow> i' < H' \<longrightarrow> j' < W' \<longrightarrow>
              at4 out' n f i' j' =
                (if f = k \<and> i' = i \<and> j' = j
                 then (\<Sum>c<C. \<Sum>a<HH. \<Sum>b<WW.
                         at4 xp n c (i * s + a) (j * s + b) * at4 w k c a b) + b ! k
                 else at4 out n f i' j'))"
proof -
  define win where
    "win = (\<lambda>img :: real list list list.
              map (\<lambda>ch. map (slice (j * s) (j * s + WW)) (slice (i * s) (i * s + HH) ch)) img)"
  define wk where "wk = data4 w ! k"
  define blocks where "blocks = map (\<lambda>img. map2 (*) (flatten3 (win img)) (flatten3 wk)) (data4 xp)"
  define Nsum where "Nsum = map (\<lambda>part. sum_list part + b ! k) blocks"
  define out' where "out' = out \<lparr>data4 :=
      map2 (\<lambda>img v. img[k := (img ! k)[i := (img ! k ! i)[j := v]]]) (data4 out) Nsum\<rparr>"
  note xd = wf4D [OF xp xps]
  note wd = wf4D [OF w ws]
  note od = wf4D [OF out outs]
  have wk_shape: "length wk = C" "\<And>c. c < C \<Longrightarrow> length (wk ! c) = HH"
      "\<And>c a. c < C \<Longrightarrow> a < HH \<Longrightarrow> length (wk ! c ! a) = WW"
    using wd k by (simp_all add: wk_def)
  have lwk: "length (flatten3 wk) = C * (HH * WW)"
    using wk_shape by (rule length_flatten3)
  have win_n: "length (win (data4 xp ! n)) = C"
      "\<And>c. c < C \<Longrightarrow> length (win (data4 xp ! n) ! c) = HH"
      "\<And>c a. c < C \<Longrightarrow> a < HH \<Longrightarrow> length (win (data4 xp ! n) ! c ! a) = WW"
      "\<And>c a b. c < C \<Longrightarrow> a < HH \<Longrightarrow> b < WW \<Longrightarrow>
         win (data4 xp ! n) ! c ! a ! b = at4 xp n c (i * s + a) (j * s + b)"
    if n: "n < N" for n
    unfolding win_def at4_def
    using window_shape [of "data4 xp ! n" C Hp Wp "i * s" HH "j * s" WW] xd(2,3,4) n fit
    by simp_all
  have lwin: "length (flatten3 (win (data4 xp ! n))) = C * (HH * WW)" if "n < N" for n
    using win_n(1,2,3) [OF that] by (rule length_flatten3)
  have lblocks: "length blocks = N"
    using xd(1) by (simp add: blocks_def)
  have tensor_f: "map2 (*) (concat (map (\<lambda>img. flatten3 (win img)) (data4 xp)))
                          (concat (replicate N (flatten3 wk))) = concat blocks"
  proof -
    have "map2 (*) (concat (map (\<lambda>img. flatten3 (win img)) (data4 xp)))
                   (concat (replicate N (flatten3 wk)))
        = concat (map2 (map2 (*)) (map (\<lambda>img. flatten3 (win img)) (data4 xp))
                                   (replicate N (flatten3 wk)))"
      using xd(1) lwin lwk by (intro map2_concat) simp_all
    also have "map2 (map2 (*)) (map (\<lambda>img. flatten3 (win img)) (data4 xp))
                 (replicate N (flatten3 wk)) = blocks"
      using xd(1) by (intro nth_equalityI) (simp_all add: blocks_def)
    finally show ?thesis .
  qed
  have "np_split (concat blocks) N = Inr blocks"
  proof (rule np_split_blocks [OF _ lblocks N])
    fix bl assume "bl \<in> set blocks"
    then obtain n where "n < N" "bl = blocks ! n"
      using lblocks by (auto simp: in_set_conv_nth)
    then show "length bl = C * (HH * WW)"
      using xd(1) lwin lwk by (simp add: blocks_def)
  qed
  then have step: "conv_step xp w b N HH WW s i j k out = Inr out'"
    using tensor_f
    by (simp add: conv_step_def Let_def win_def [symmetric] wk_def [symmetric] out'_def Nsum_def)
  have Nsum_n: "Nsum ! n = (\<Sum>c<C. \<Sum>a<HH. \<Sum>b<WW.
        at4 xp n c (i * s + a) (j * s + b) * at4 w k c a b) + b ! k" if n: "n < N" for n
  proof -
    have "sum_list (map2 (*) (flatten3 (win (data4 xp ! n))) (flatten3 wk))
        = (\<Sum>c<C. \<Sum>a<HH. \<Sum>b<WW. win (data4 xp ! n) ! c ! a ! b * wk ! c ! a ! b)"
      using win_n(1,2,3) [OF n] wk_shape by (rule dot_flatten3)
    also have "\<dots> = (\<Sum>c<C. \<Sum>a<HH. \<Sum>b<WW.
        at4 xp n c (i * s + a) (j * s + b) * at4 w k c a b)"
      by (intro sum.cong refl) (simp add: win_n(4) [OF n] at4_def wk_def)
    finally show ?thesis
      using n lblocks xd(1) by (simp add: Nsum_def blocks_def)
  qed
  have lNsum: "length Nsum = N"
    using lblocks by (simp add: Nsum_def)
  have img_n: "data4 out' ! n
      = (data4 out ! n)[k := (data4 out ! n ! k)[i := (data4 out ! n ! k ! i)[j := Nsum ! n]]]"
    if "n < N" for n
    using that od(1) lNsum by (simp add: out'_def)
  have sh': "shape4 out' = (N, F, H', W')"
    using outs by (simp add: out'_def)
  have wf': "wf4 out'"
  proof (rule wf4I [OF sh'])
    show "length (data4 out') = N"
      using od(1) lNsum by (simp add: out'_def)
  next
    fix n assume n: "n < N"
    show "length (data4 out' ! n) = F"
      using od(2) [OF n] by (simp add: img_n [OF n])
  next
    fix n c assume n: "n < N" and c: "c < F"
    show "length (data4 out' ! n ! c) = H'"
      using od(2,3) [OF n] c k by (simp add: img_n [OF n] nth_list_update)
  next
    fix n c h assume n: "n < N" and c: "c < F" and h: "h < H'"
    show "length (data4 out' ! n ! c ! h) = W'"
      using od(2,3,4) [OF n] c h k i by (simp add: img_n [OF n] nth_list_update)
  qed
  have "at4 out' n f i' j' =
      (if f = k \<and> i' = i \<and> j' = j
       then (\<Sum>c<C. \<Sum>a<HH. \<Sum>b<WW. at4 xp n c (i * s + a) (j * s + b) * at4 w k c a b) + b ! k
       else at4 out n f i' j')"
    if "n < N" "f < F" "i' < H'" "j' < W'" for n f i' j'
    using that od(2,3,4) [OF that(1)] k i j
    by (simp add: at4_def img_n [OF that(1)] nth_list_update Nsum_n [OF that(1)])
  then show ?thesis
    using step wf' sh' by blast
qed


lemma out_size:
  assumes "HH \<le> H + 2 * p"
  shows "1 + (int H + 2 * int p - int HH) div int s = int (1 + (H + 2 * p - HH) div s)"
proof -
  have "int H + 2 * int p - int HH = int (H + 2 * p - HH)"
    using assms by (simp add: of_nat_diff)
  then show ?thesis
    by (simp only: of_nat_add of_nat_1 zdiv_int)
qed

lemma window_fits:
  assumes "i < 1 + (H + 2 * p - HH) div s" and "HH \<le> H + 2 * p"
  shows "i * s + HH \<le> H + 2 * (p::nat)"
proof -
  have "i \<le> (H + 2 * p - HH) div s"
    using assms(1) by simp
  then have "i * s \<le> (H + 2 * p - HH) div s * s"
    by (rule mult_le_mono1)
  also have "\<dots> \<le> H + 2 * p - HH"
    by (simp add: div_times_less_eq_dividend)
  finally show ?thesis
    using assms(2) by simp
qed

lemma conv_forward_naive_value:
  assumes x: "wf4 x" and xs: "shape4 x = (N, C, H, W)"
    and w: "wf4 w" and ws: "shape4 w = (F, C, HH, WW)"
    and b: "length b = F"
    and N: "0 < N"
    and s: "0 < cp_stride cp"
    and fitH: "HH \<le> H + 2 * cp_pad cp" and fitW: "WW \<le> W + 2 * cp_pad cp"
  defines "H' \<equiv> 1 + (H + 2 * cp_pad cp - HH) div cp_stride cp"
    and "W' \<equiv> 1 + (W + 2 * cp_pad cp - WW) div cp_stride cp"
  shows "\<exists>out. conv_forward_naive x w b cp = Inr (out, (x, w, b, cp)) \<and>
           wf4 out \<and> shape4 out = (N, F, H', W') \<and>
           (\<forall>n<N. \<forall>f<F. \<forall>i<H'. \<forall>j<W'.
              at4 out n f i j
                = receptive_sum x w (cp_pad cp) (cp_stride cp) n f i j + b ! f)"
proof -
  define p where "p = cp_pad cp"
  define st where "st = cp_stride cp"
  define xp where "xp = np_pad p x"
  define I where "I = (\<lambda>a. wf4 a \<and> shape4 a = (N, F, H', W'))"
  define rd where "rd = (\<lambda>a (q :: nat \<times> nat \<times> nat \<times> nat). case q of (n, f, i, j) \<Rightarrow>
      if n < N \<and> f < F \<and> i < H' \<and> j < W' then at4 a n f i j else 0)"
  define val where "val = (\<lambda>q :: nat \<times> nat \<times> nat \<times> nat. case q of (n, f, i, j) \<Rightarrow>
      (\<Sum>c<C. \<Sum>a<HH. \<Sum>b<WW. at4 xp n c (i * st + a) (j * st + b) * at4 w f c a b) + b ! f)"
  define Wr where "Wr = (\<lambda>i j k (q :: nat \<times> nat \<times> nat \<times> nat). case q of (n, f, i', j') \<Rightarrow>
      n < N \<and> f < F \<and> i' < H' \<and> j' < W' \<and> f = k \<and> i' = i \<and> j' = j)"
  have xpw: "wf4 xp" and xps: "shape4 xp = (N, C, H + 2 * p, W + 2 * p)"
    using x xs by (simp_all add: xp_def wf4_np_pad np_pad_shape)
  have inner: "\<exists>a'. foldM (conv_step xp w b N HH WW st i j) [0..<F] a = Inr a' \<and> I a' \<and>
      (\<forall>q. rd a' q = (if \<exists>k<F. Wr i j k q then val q else rd a q))"
    if i: "i < H'" and j: "j < W'" and a: "I a" for i j a
  proof (rule foldM_assign [where I = I and rd = rd and val = val and Wr = "Wr i j"])
    show "I a" by (rule a)
  next
    fix k a assume k: "k < F" and a: "I a"
    have fit: "i * st + HH \<le> H + 2 * p" "j * st + WW \<le> W + 2 * p"
      using i j fitH fitW window_fits [of i H p HH st] window_fits [of j W p WW st]
      by (simp_all add: H'_def W'_def p_def st_def)
    have "\<exists>a'. conv_step xp w b N HH WW st i j k a = Inr a' \<and> wf4 a' \<and>
           shape4 a' = (N, F, H', W') \<and>
           (\<forall>n f i' j'. n < N \<longrightarrow> f < F \<longrightarrow> i' < H' \<longrightarrow> j' < W' \<longrightarrow>
              at4 a' n f i' j' =
                (if f = k \<and> i' = i \<and> j' = j
                 then (\<Sum>c<C. \<Sum>a<HH. \<Sum>b<WW.
                         at4 xp n c (i * st + a) (j * st + b) * at4 w k c a b) + b ! k
                 else at4 a n f i' j'))"
      using a i j unfolding I_def
      by (intro conv_step_value [OF xpw xps w ws N k fit]) simp_all
    then obtain a' where all: "conv_step xp w b N HH WW st i j k a = Inr a' \<and> wf4 a' \<and>
           shape4 a' = (N, F, H', W') \<and>
           (\<forall>n f i' j'. n < N \<longrightarrow> f < F \<longrightarrow> i' < H' \<longrightarrow> j' < W' \<longrightarrow>
              at4 a' n f i' j' =
                (if f = k \<and> i' = i \<and> j' = j
                 then (\<Sum>c<C. \<Sum>a<HH. \<Sum>b<WW.
                         at4 xp n c (i * st + a) (j * st + b) * at4 w k c a b) + b ! k
                 else at4 a n f i' j'))" ..
    then have a': "conv_step xp w b N HH WW st i j k a = Inr a'" "wf4 a'"
        "shape4 a' = (N, F, H', W')"
      and el: "\<forall>n f i' j'. n < N \<longrightarrow> f < F \<longrightarrow> i' < H' \<longrightarrow> j' < W' \<longrightarrow>
          at4 a' n f i' j' =
            (if f = k \<and> i' = i \<and> j' = j
             then (\<Sum>c<C. \<Sum>a<HH. \<Sum>b<WW.
                     at4 xp n c (i * st + a) (j * st + b) * at4 w k c a b) + b ! k
             else at4 a n f i' j')"
      by simp_all
    have "rd a' q = (if Wr i j k q then val q else rd a q)" for q
    proof (cases q)
      case (fields n f i' j')
      then show ?thesis
        using el [rule_format, of n f i' j'] by (auto simp: rd_def Wr_def val_def)
    qed
    then show "\<exists>a'. conv_step xp w b N HH WW st i j k a = Inr a' \<and> I a' \<and>
        (\<forall>q. rd a' q = (if Wr i j k q then val q else rd a q))"
      using a' by (auto simp: I_def)
  qed
  have middle: "\<exists>a'. foldM (\<lambda>j. foldM (conv_step xp w b N HH WW st i j) [0..<F]) [0..<W'] a
        = Inr a' \<and> I a' \<and>
      (\<forall>q. rd a' q = (if \<exists>j<W'. \<exists>k<F. Wr i j k q then val q else rd a q))"
    if i: "i < H'" and a: "I a" for i a
  proof (rule foldM_assign [where I = I and rd = rd and val = val
          and Wr = "\<lambda>j q. \<exists>k<F. Wr i j k q"])
    show "I a" by (rule a)
  next
    fix j a assume "j < W'" and "I a"
    then show "\<exists>a'. foldM (conv_step xp w b N HH WW st i j) [0..<F] a = Inr a' \<and> I a' \<and>
        (\<forall>q. rd a' q = (if \<exists>k<F. Wr i j k q then val q else rd a q))"
      by (rule inner [OF i])
  qed
  have outer: "\<exists>a'. foldM (\<lambda>i. foldM (\<lambda>j. foldM (conv_step xp w b N HH WW st i j) [0..<F])
                                   [0..<W']) [0..<H'] a = Inr a' \<and> I a' \<and>
      (\<forall>q. rd a' q = (if \<exists>i<H'. \<exists>j<W'. \<exists>k<F. Wr i j k q then val q else rd a q))"
    if a: "I a" for a
  proof (rule foldM_assign [where I = I and rd = rd and val = val
          and Wr = "\<lambda>i q. \<exists>j<W'. \<exists>k<F. Wr i j k q"])
    show "I a" by (rule a)
  next
    fix i a assume "i < H'" and "I a"
    then show "\<exists>a'. foldM (\<lambda>j. foldM (conv_step xp w b N HH WW st i j) [0..<F]) [0..<W'] a
          = Inr a' \<and> I a' \<and>
        (\<forall>q. rd a' q = (if \<exists>j<W'. \<exists>k<F. Wr i j k q then val q else rd a q))"
      by (rule middle)
  qed
  have "I (zeros4 (N, F, H', W'))"
    by (simp add: I_def wf4_zeros4) (simp add: zeros4_def)
  from outer [OF this] obtain out where all: 
    "foldM (\<lambda>i. foldM (\<lambda>j. foldM (conv_step xp w b N HH WW st i j) [0..<F]) [0..<W'])
            [0..<H'] (zeros4 (N, F, H', W')) = Inr out \<and> I out \<and>
     (\<forall>q. rd out q = (if \<exists>i<H'. \<exists>j<W'. \<exists>k<F. Wr i j k q then val q
                                else rd (zeros4 (N, F, H', W')) q))" ..
  then have run: "foldM (\<lambda>i. foldM (\<lambda>j. foldM (conv_step xp w b N HH WW st i j) [0..<F]) [0..<W'])
            [0..<H'] (zeros4 (N, F, H', W')) = Inr out"
    and Iout: "I out"
    and cells: "\<forall>q. rd out q = (if \<exists>i<H'. \<exists>j<W'. \<exists>k<F. Wr i j k q then val q
                                else rd (zeros4 (N, F, H', W')) q)"
    by simp_all
  have Hp: "1 + (int H + 2 * int p - int HH) div int st = int H'"
    and Wp: "1 + (int W + 2 * int p - int WW) div int st = int W'"
    using fitH fitW by (simp_all only: H'_def W'_def p_def st_def out_size)
  have res: "conv_forward_naive x w b cp = Inr (out, (x, w, b, cp))"
    using s run b
    by (simp add: conv_forward_naive_def xs ws Let_def p_def [symmetric] st_def [symmetric]
        xp_def [symmetric] Hp Wp del: of_nat_add of_nat_Suc One_nat_def)
  have "at4 out n f i j = receptive_sum x w p st n f i j + b ! f"
    if n: "n < N" and f: "f < F" and i: "i < H'" and j: "j < W'" for n f i j
  proof -
    have "Wr i j f (n, f, i, j)"
      using that by (simp add: Wr_def)
    then have ex: "\<exists>i'<H'. \<exists>j'<W'. \<exists>k<F. Wr i' j' k (n, f, i, j)"
      using f i j by (intro exI [of _ i] exI [of _ j] exI [of _ f] conjI)
    have "rd out (n, f, i, j) = (if \<exists>i'<H'. \<exists>j'<W'. \<exists>k<F. Wr i' j' k (n, f, i, j)
        then val (n, f, i, j) else rd (zeros4 (N, F, H', W')) (n, f, i, j))"
      using cells by (rule spec)
    then have "rd out (n, f, i, j) = val (n, f, i, j)"
      using ex by (simp only: if_True)
    then have "at4 out n f i j
        = (\<Sum>c<C. \<Sum>a<HH. \<Sum>b<WW. at4 xp n c (i * st + a) (j * st + b) * at4 w f c a b) + b ! f"
      using that by (simp add: rd_def val_def)
    also have "(\<Sum>c<C. \<Sum>a<HH. \<Sum>b<WW. at4 xp n c (i * st + a) (j * st + b) * at4 w f c a b)
        = receptive_sum x w p st n f i j"
      unfolding receptive_sum_def ws prod.case
    proof (intro sum.cong refl)
      fix c a b' assume "c \<in> {..<C}" "a \<in> {..<HH}" "b' \<in> {..<WW}"
      then have c: "c < C" and a: "a < HH" and b': "b' < WW" by simp_all
      have "i * st + a < H + 2 * p" "j * st + b' < W + 2 * p"
        using window_fits [of i H p HH st] window_fits [of j W p WW st] i j a b' fitH fitW
        by (simp_all add: H'_def W'_def p_def st_def)
      then show "at4 xp n c (i * st + a) (j * st + b') * at4 w f c a b'
          = padded x p n c (i * st + a) (j * st + b') * at4 w f c a b'"
        using at4_np_pad [OF x xs n c] by (simp add: xp_def)
    qed
    finally show ?thesis .
  qed
  then have "\<forall>n<N. \<forall>f<F. \<forall>i<H'. \<forall>j<W'.
      at4 out n f i j = receptive_sum x w (cp_pad cp) (cp_stride cp) n f i j + b ! f"
    unfolding p_def st_def by blast
  moreover have "wf4 out" "shape4 out = (N, F, H', W')"
    using Iout by (simp_all add: I_def)
  ultimately show ?thesis
    using res by (intro exI [of _ out]) simp
qed


text \<open>
  C5.  For an input \<open>x\<close> of shape \<open>(N, C, H, W)\<close> with \<open>N \<ge> 1\<close>, filters \<open>w\<close> of shape
  \<open>(F, C, HH, WW)\<close>, a bias of shape \<open>(F,)\<close>, a stride \<open>s \<ge> 1\<close> and a pad \<open>p\<close> with
  \<open>HH \<le> H + 2p\<close> and \<open>WW \<le> W + 2p\<close>, \<^verbatim>\<open>conv_forward_naive\<close> returns an output of shape
  \<open>(N, F, 1 + (H + 2p - HH) div s, 1 + (W + 2p - WW) div s)\<close>, the division being exact when
  the windows divide evenly, whose element \<open>out[n, f, i, j]\<close> is the sum over the receptive
  window of the zero-padded input times filter \<open>f\<close>, plus \<open>b[f]\<close>.  In particular, for \<open>x\<close>
  of shape \<open>(2, 3, 4, 4)\<close>, the all-ones filter of shape \<open>(2, 3, 3, 3)\<close>, stride 1 and pad 1
  the output has shape \<open>(2, 2, 4, 4)\<close> and every element is the sum of its receptive field
  plus the bias.
\<close>

theorem conv_forward_naive_spec:
  "(wf4 x \<and> shape4 x = (N, C, H, W) \<and> wf4 w \<and> shape4 w = (F, C, HH, WW) \<and> length b = F \<and>
    0 < N \<and> 0 < cp_stride cp \<and> HH \<le> H + 2 * cp_pad cp \<and> WW \<le> W + 2 * cp_pad cp \<longrightarrow>
    (\<exists>out. conv_forward_naive x w b cp = Inr (out, (x, w, b, cp)) \<and> wf4 out \<and>
       shape4 out = (N, F, 1 + (H + 2 * cp_pad cp - HH) div cp_stride cp,
                           1 + (W + 2 * cp_pad cp - WW) div cp_stride cp) \<and>
       (\<forall>n<N. \<forall>f<F. \<forall>i < 1 + (H + 2 * cp_pad cp - HH) div cp_stride cp.
          \<forall>j < 1 + (W + 2 * cp_pad cp - WW) div cp_stride cp.
            at4 out n f i j = receptive_sum x w (cp_pad cp) (cp_stride cp) n f i j + b ! f))) \<and>
   (wf4 x' \<and> shape4 x' = (2, 3, 4, 4) \<and> length b' = 2 \<longrightarrow>
    (\<exists>out. conv_forward_naive x' (ones4 (2, 3, 3, 3)) b' \<lparr>cp_stride = 1, cp_pad = 1\<rparr>
             = Inr (out, (x', ones4 (2, 3, 3, 3), b', \<lparr>cp_stride = 1, cp_pad = 1\<rparr>)) \<and>
       wf4 out \<and> shape4 out = (2, 2, 4, 4) \<and>
       (\<forall>n<2. \<forall>f<2. \<forall>i<4. \<forall>j<4.
          at4 out n f i j = (\<Sum>c<3. \<Sum>a<3. \<Sum>b<3. padded x' 1 n c (i + a) (j + b)) + b' ! f)))"
proof (intro conjI impI)
  assume "wf4 x \<and> shape4 x = (N, C, H, W) \<and> wf4 w \<and> shape4 w = (F, C, HH, WW) \<and> length b = F \<and>
    0 < N \<and> 0 < cp_stride cp \<and> HH \<le> H + 2 * cp_pad cp \<and> WW \<le> W + 2 * cp_pad cp"
  then show "\<exists>out. conv_forward_naive x w b cp = Inr (out, (x, w, b, cp)) \<and> wf4 out \<and>
       shape4 out = (N, F, 1 + (H + 2 * cp_pad cp - HH) div cp_stride cp,
                           1 + (W + 2 * cp_pad cp - WW) div cp_stride cp) \<and>
       (\<forall>n<N. \<forall>f<F. \<forall>i < 1 + (H + 2 * cp_pad cp - HH) div cp_stride cp.
          \<forall>j < 1 + (W + 2 * cp_pad cp - WW) div cp_stride cp.
            at4 out n f i j = receptive_sum x w (cp_pad cp) (cp_stride cp) n f i j + b ! f)"
    by (intro conv_forward_naive_value) simp_all
next
  let ?w = "ones4 (2, 3, 3, 3)"
  let ?cp = "\<lparr>cp_stride = 1, cp_pad = 1\<rparr>"
  assume a: "wf4 x' \<and> shape4 x' = (2, 3, 4, 4) \<and> length b' = 2"
  have w: "wf4 ?w" "shape4 ?w = (2, 3, 3, 3)"
    by (simp_all add: wf4_ones4) (simp add: ones4_def)
  have "\<exists>out. conv_forward_naive x' ?w b' ?cp = Inr (out, (x', ?w, b', ?cp)) \<and> wf4 out \<and>
       shape4 out = (2, 2, 1 + (4 + 2 * cp_pad ?cp - 3) div cp_stride ?cp,
                           1 + (4 + 2 * cp_pad ?cp - 3) div cp_stride ?cp) \<and>
       (\<forall>n<2. \<forall>f<2. \<forall>i < 1 + (4 + 2 * cp_pad ?cp - 3) div cp_stride ?cp.
          \<forall>j < 1 + (4 + 2 * cp_pad ?cp - 3) div cp_stride ?cp.
            at4 out n f i j = receptive_sum x' ?w (cp_pad ?cp) (cp_stride ?cp) n f i j + b' ! f)"
    using a w by (intro conv_forward_naive_value) simp_all
  moreover have "receptive_sum x' ?w (cp_pad ?cp) (cp_stride ?cp) n f i j
      = (\<Sum>c<3. \<Sum>a<3. \<Sum>b<3. padded x' 1 n c (i + a) (j + b))" if "f < 2" for n f i j
  proof -
    have "at4 ?w f c a b = 1" if "c < 3" "a < 3" "b < 3" for c a b
      using that \<open>f < 2\<close> by (simp add: at4_def ones4_def)
    then show ?thesis
      by (simp add: receptive_sum_def w(2))
  qed
  ultimately show "\<exists>out. conv_forward_naive x' ?w b' ?cp = Inr (out, (x', ?w, b', ?cp)) \<and>
       wf4 out \<and> shape4 out = (2, 2, 4, 4) \<and>
       (\<forall>n<2. \<forall>f<2. \<forall>i<4. \<forall>j<4.
          at4 out n f i j = (\<Sum>c<3. \<Sum>a<3. \<Sum>b<3. padded x' 1 n c (i + a) (j + b)) + b' ! f)"
    by simp
qed

text \<open>
  On an empty batch the first pass through the loops reaches \<^verbatim>\<open>np.split(dot, 0)\<close>, which
  raises \<^verbatim>\<open>ZeroDivisionError\<close>.
\<close>

theorem conv_forward_naive_empty_batch:
  "wf4 \<lparr>shape4 = (0, 3, 4, 4), data4 = []\<rparr> \<and>
   wf4 \<lparr>shape4 = (2, 3, 3, 3),
        data4 = replicate 2 (replicate 3 (replicate 3 (replicate 3 1)))\<rparr> \<and>
   conv_forward_naive \<lparr>shape4 = (0, 3, 4, 4), data4 = []\<rparr>
     \<lparr>shape4 = (2, 3, 3, 3), data4 = replicate 2 (replicate 3 (replicate 3 (replicate 3 1)))\<rparr>
     [0, 0] \<lparr>cp_stride = 1, cp_pad = 1\<rparr>
   = Inl ZeroDivisionError"
  by (simp add: conv_forward_naive_def Let_def zeros4_def np_pad_def conv_step_def np_split_def
      upt_conv_Cons wf4_def list_all_iff)


theorem conv_forward_naive_spec_witness:
  "wf4 \<lparr>shape4 = (2, 3, 4, 4),
         data4 = replicate 2 (replicate 3
                   [[1, 2, 3, 4], [5, 6, 7, 8], [9, 10, 11, 12], [13, 14, 15, 16]])\<rparr> \<and>
   (\<exists>out. conv_forward_naive
            \<lparr>shape4 = (2, 3, 4, 4),
             data4 = replicate 2 (replicate 3
                       [[1, 2, 3, 4], [5, 6, 7, 8], [9, 10, 11, 12], [13, 14, 15, 16]])\<rparr>
            (ones4 (2, 3, 3, 3)) [10, 20] \<lparr>cp_stride = 1, cp_pad = 1\<rparr>
          = Inr (out,
              (\<lparr>shape4 = (2, 3, 4, 4),
                data4 = replicate 2 (replicate 3
                       [[1, 2, 3, 4], [5, 6, 7, 8], [9, 10, 11, 12], [13, 14, 15, 16]])\<rparr>,
               ones4 (2, 3, 3, 3), [10, 20], \<lparr>cp_stride = 1, cp_pad = 1\<rparr>)) \<and>
      shape4 out = (2, 2, 4, 4) \<and> at4 out 0 0 0 0 = 52 \<and> at4 out 1 1 3 3 = 182)"
proof -
  let ?x = "\<lparr>shape4 = (2, 3, 4, 4),
             data4 = replicate 2 (replicate 3
               [[1, 2, 3, 4], [5, 6, 7, 8], [9, 10, 11, 12], [13, 14, 15, 16 :: real]])\<rparr>"
  have x: "wf4 ?x"
    by (simp add: wf4_def list_all_iff)
  from conv_forward_naive_spec [THEN conjunct2, of ?x "[10, 20]"] x
  obtain out where res: "conv_forward_naive ?x (ones4 (2, 3, 3, 3)) [10, 20]
        \<lparr>cp_stride = 1, cp_pad = 1\<rparr>
      = Inr (out, (?x, ones4 (2, 3, 3, 3), [10, 20], \<lparr>cp_stride = 1, cp_pad = 1\<rparr>))"
    and sh: "shape4 out = (2, 2, 4, 4)"
    and el: "\<forall>n<2. \<forall>f<2. \<forall>i<4. \<forall>j<4.
          at4 out n f i j = (\<Sum>c<3. \<Sum>a<3. \<Sum>b<3. padded ?x 1 n c (i + a) (j + b)) + [10, 20] ! f"
    by auto
  have "at4 out 0 0 0 0 = (\<Sum>c<3. \<Sum>a<3. \<Sum>b<3. padded ?x 1 0 c (0 + a) (0 + b)) + [10, 20] ! 0"
    using el by simp
  then have e1: "at4 out 0 0 0 0 = 52"
    by (simp add: padded_def at4_def lessThan_Suc eval_nat_numeral)
  have "at4 out 1 1 3 3 = (\<Sum>c<3. \<Sum>a<3. \<Sum>b<3. padded ?x 1 1 c (3 + a) (3 + b)) + [10, 20] ! 1"
    using el by simp
  then have e2: "at4 out 1 1 3 3 = 182"
    by (simp add: padded_def at4_def lessThan_Suc eval_nat_numeral)
  show ?thesis
    using x res sh e1 e2 by blast
qed

section \<open>The backward pass of max pooling\<close>

lemma argmax_from_spec:
  assumes "v = pre @ as" and "length pre = k" and "bi < k" and "pre ! bi = best"
    and "\<forall>q<k. pre ! q \<le> best" and "\<forall>q<bi. pre ! q < best"
  shows "argmax_from best bi k as < length v \<and>
         (\<forall>q<length v. v ! q \<le> v ! argmax_from best bi k as) \<and>
         (\<forall>q<argmax_from best bi k as. v ! q < v ! argmax_from best bi k as)"
  using assms
proof (induction as arbitrary: pre best bi k)
  case Nil
  then show ?case by simp
next
  case (Cons a as)
  have v: "v = (pre @ [a]) @ as" and l: "length (pre @ [a]) = Suc k"
    using Cons.prems(1,2) by simp_all
  show ?case
  proof (cases "a > best")
    case True
    have "argmax_from a k (Suc k) as < length v \<and>
         (\<forall>q<length v. v ! q \<le> v ! argmax_from a k (Suc k) as) \<and>
         (\<forall>q<argmax_from a k (Suc k) as. v ! q < v ! argmax_from a k (Suc k) as)"
    proof (rule Cons.IH [OF v l])
      show "k < Suc k" by simp
      show "(pre @ [a]) ! k = a"
        using Cons.prems(2) by (simp add: nth_append)
      show "\<forall>q<Suc k. (pre @ [a]) ! q \<le> a"
        using Cons.prems(2,5) True by (auto simp: nth_append less_Suc_eq intro: order_trans less_imp_le)
      show "\<forall>q<k. (pre @ [a]) ! q < a"
        using Cons.prems(2,5) True by (auto simp: nth_append intro: le_less_trans)
    qed
    then show ?thesis
      using True by simp
  next
    case False
    have "argmax_from best bi (Suc k) as < length v \<and>
         (\<forall>q<length v. v ! q \<le> v ! argmax_from best bi (Suc k) as) \<and>
         (\<forall>q<argmax_from best bi (Suc k) as. v ! q < v ! argmax_from best bi (Suc k) as)"
    proof (rule Cons.IH [OF v l])
      show "bi < Suc k"
        using Cons.prems(3) by simp
      show "(pre @ [a]) ! bi = best"
        using Cons.prems(2,3,4) by (simp add: nth_append)
      show "\<forall>q<Suc k. (pre @ [a]) ! q \<le> best"
        using Cons.prems(2,5) False by (auto simp: nth_append less_Suc_eq)
      show "\<forall>q<bi. (pre @ [a]) ! q < best"
        using Cons.prems(2,3,6) by (auto simp: nth_append)
    qed
    then show ?thesis
      using False by simp
  qed
qed

lemma argmax_spec:
  assumes "v \<noteq> []"
  shows "argmax v < length v" and "\<And>q. q < length v \<Longrightarrow> v ! q \<le> v ! argmax v"
    and "\<And>q. q < argmax v \<Longrightarrow> v ! q < v ! argmax v"
proof -
  have "argmax_from (hd v) 0 1 (tl v) < length v \<and>
         (\<forall>q<length v. v ! q \<le> v ! argmax_from (hd v) 0 1 (tl v)) \<and>
         (\<forall>q<argmax_from (hd v) 0 1 (tl v). v ! q < v ! argmax_from (hd v) 0 1 (tl v))"
    using assms by (intro argmax_from_spec [where pre = "[hd v]"]) simp_all
  then show "argmax v < length v" and "\<And>q. q < length v \<Longrightarrow> v ! q \<le> v ! argmax v"
    and "\<And>q. q < argmax v \<Longrightarrow> v ! q < v ! argmax v"
    by (simp_all add: argmax_def)
qed

lemma nth_concat_blocks:
  assumes "\<And>b. b \<in> set bs \<Longrightarrow> length b = L" and "p < length bs * L"
  shows "concat bs ! p = bs ! (p div L) ! (p mod L)"
  using assms
proof (induction bs arbitrary: p)
  case Nil
  then show ?case by simp
next
  case (Cons b bs)
  have lb: "length b = L"
    using Cons.prems(1) by simp
  have L: "0 < L"
    using Cons.prems(2) by (cases L) simp_all
  show ?case
  proof (cases "p < L")
    case True
    then show ?thesis using lb by (simp add: nth_append)
  next
    case False
    then have "concat bs ! (p - L) = bs ! ((p - L) div L) ! ((p - L) mod L)"
      using Cons.prems by (intro Cons.IH) auto
    moreover have "p div L = Suc ((p - L) div L)" "p mod L = (p - L) mod L"
      using False L by (simp_all add: le_div_geq le_mod_geq)
    ultimately show ?thesis
      using False lb by (simp add: nth_append)
  qed
qed

lemma row_major_less:
  fixes a b a' b' L :: nat
  assumes "b < L" and "b' < L"
  shows "a' * L + b' < a * L + b \<longleftrightarrow> a' < a \<or> a' = a \<and> b' < b"
proof (cases a' a rule: linorder_cases)
  case less
  then have "Suc a' \<le> a" by simp
  then have "Suc a' * L \<le> a * L" by (rule mult_le_mono1)
  then show ?thesis using less assms by simp
next
  case equal
  then show ?thesis by simp
next
  case greater
  then have "Suc a \<le> a'" by simp
  then have "Suc a * L \<le> a' * L" by (rule mult_le_mono1)
  then show ?thesis using greater assms by simp
qed

lemma window2_shape:
  assumes "length plane = H" and "\<And>h. h < H \<Longrightarrow> length (plane ! h) = W"
    and "hs + A \<le> H" and "ws + B \<le> W"
  defines "local \<equiv> window2 plane hs (hs + A) ws (ws + B)"
  shows "length local = A"
    and "\<And>a. a < A \<Longrightarrow> length (local ! a) = B"
    and "\<And>a b. a < A \<Longrightarrow> b < B \<Longrightarrow> local ! a ! b = plane ! (hs + a) ! (ws + b)"
proof -
  show "length local = A"
    using assms(1,3) by (simp add: local_def window2_def length_slice)
  have row: "local ! a = slice ws (ws + B) (plane ! (hs + a))" if "a < A" for a
    using that assms(1,3) by (simp add: local_def window2_def length_slice nth_slice)
  show "length (local ! a) = B" if "a < A" for a
    using that assms(2) [of "hs + a"] assms(3,4) by (simp add: row length_slice)
  show "local ! a ! b = plane ! (hs + a) ! (ws + b)" if "a < A" "b < B" for a b
    using that assms(2) [of "hs + a"] assms(3,4) by (simp add: row nth_slice)
qed


lemma first_max_position:
  assumes plane: "length plane = H" "\<And>h. h < H \<Longrightarrow> length (plane ! h) = W"
    and fit: "hs + A \<le> H" "ws + B \<le> W" and pos: "0 < A" "0 < B"
  defines "flat \<equiv> concat (window2 plane hs (hs + A) ws (ws + B))"
  shows "flat \<noteq> []"
    and "argmax flat div B < A"
    and "(hs \<le> h \<and> h < hs + A \<and> ws \<le> w \<and> w < ws + B \<and>
          (\<forall>h' \<in> {hs..<hs + A}. \<forall>w' \<in> {ws..<ws + B}.
             plane ! h' ! w' \<le> plane ! h ! w \<and>
             (h' < h \<or> h' = h \<and> w' < w \<longrightarrow> plane ! h' ! w' < plane ! h ! w)))
         \<longleftrightarrow> h = hs + argmax flat div B \<and> w = ws + argmax flat mod B"
proof -
  define local where "local = window2 plane hs (hs + A) ws (ws + B)"
  define p where "p = argmax flat"
  note sh = window2_shape [OF plane fit, folded local_def]
  have blocks: "length b = B" if "b \<in> set local" for b
    using that sh(1,2) by (auto simp: in_set_conv_nth)
  have lflat: "length flat = A * B"
    using length_concat_blocks [of local B] blocks sh(1) by (simp add: flat_def local_def)
  show ne: "flat \<noteq> []"
    using lflat pos by auto
  have pl: "p < A * B"
    using argmax_spec(1) [OF ne] lflat by (simp add: p_def)
  have pa: "p div B < A"
    using pl pos by (simp add: less_mult_imp_div_less)
  then show "argmax flat div B < A"
    by (simp add: p_def)
  have pb: "p mod B < B"
    using pos by simp
  have cell: "plane ! (hs + a) ! (ws + b) = flat ! (a * B + b)" if "a < A" "b < B" for a b
  proof -
    have "a * B + b < length local * B"
    proof -
      have "a * B + b < a * B + B" using that(2) by simp
      also have "\<dots> = Suc a * B" by simp
      also have "\<dots> \<le> A * B" using that(1) by (intro mult_le_mono1) simp
      finally show ?thesis using sh(1) by simp
    qed
    then have "flat ! (a * B + b) = local ! ((a * B + b) div B) ! ((a * B + b) mod B)"
      unfolding flat_def local_def [symmetric] using blocks by (intro nth_concat_blocks) simp_all
    then show ?thesis
      using that sh(3) by simp
  qed
  have idx: "a * B + b < A * B" if "a < A" "b < B" for a b
  proof -
    have "a * B + b < Suc a * B" using that(2) by simp
    also have "\<dots> \<le> A * B" using that(1) by (intro mult_le_mono1) simp
    finally show ?thesis .
  qed
  have p_eq: "p div B * B + p mod B = p"
    by simp
  show "(hs \<le> h \<and> h < hs + A \<and> ws \<le> w \<and> w < ws + B \<and>
          (\<forall>h' \<in> {hs..<hs + A}. \<forall>w' \<in> {ws..<ws + B}.
             plane ! h' ! w' \<le> plane ! h ! w \<and>
             (h' < h \<or> h' = h \<and> w' < w \<longrightarrow> plane ! h' ! w' < plane ! h ! w)))
         \<longleftrightarrow> h = hs + argmax flat div B \<and> w = ws + argmax flat mod B"
    (is "?L \<longleftrightarrow> ?R")
  proof
    assume R: ?R
    then have h: "h = hs + p div B" and w: "w = ws + p mod B"
      by (simp_all add: p_def)
    have here: "plane ! h ! w = flat ! p"
      using cell [OF pa pb] h w by simp
    have "plane ! h' ! w' \<le> plane ! h ! w \<and>
          (h' < h \<or> h' = h \<and> w' < w \<longrightarrow> plane ! h' ! w' < plane ! h ! w)"
      if "h' \<in> {hs..<hs + A}" "w' \<in> {ws..<ws + B}" for h' w'
    proof -
      define a b where "a = h' - hs" and "b = w' - ws"
      have ab: "a < A" "b < B" "h' = hs + a" "w' = ws + b"
        using that by (auto simp: a_def b_def)
      have there: "plane ! h' ! w' = flat ! (a * B + b)"
        using cell [OF ab(1,2)] ab(3,4) by simp
      have le: "flat ! (a * B + b) \<le> flat ! p"
        using argmax_spec(2) [OF ne, of "a * B + b"] idx [OF ab(1,2)] lflat by (simp add: p_def)
      have "flat ! (a * B + b) < flat ! p" if "h' < h \<or> h' = h \<and> w' < w"
      proof -
        have "a < p div B \<or> a = p div B \<and> b < p mod B"
          using that h w ab(3,4) by auto
        then have "a * B + b < p div B * B + p mod B"
          using row_major_less [OF pb ab(2), of a "p div B"] by simp
        then show ?thesis
          using argmax_spec(3) [OF ne, of "a * B + b"] by (simp add: p_def)
      qed
      then show ?thesis
        using le here there by simp
    qed
    then show ?L
      using h w pa pb by simp
  next
    assume L: ?L
    define a b where "a = h - hs" and "b = w - ws"
    have ab: "a < A" "b < B" "h = hs + a" "w = ws + b"
      using L by (auto simp: a_def b_def)
    let ?q = "a * B + b"
    have here: "plane ! h ! w = flat ! ?q"
      using cell [OF ab(1,2)] ab(3,4) by simp
    have there: "plane ! (hs + p div B) ! (ws + p mod B) = flat ! p"
      using cell [OF pa pb] by simp
    have in_win: "hs + p div B \<in> {hs..<hs + A}" "ws + p mod B \<in> {ws..<ws + B}"
      using pa pb by simp_all
    from L in_win have all: "flat ! p \<le> flat ! ?q"
      and before: "hs + p div B < h \<or> hs + p div B = h \<and> ws + p mod B < w
                    \<Longrightarrow> flat ! p < flat ! ?q"
      unfolding here there [symmetric] by blast+
    have "?q = p"
    proof (cases ?q p rule: linorder_cases)
      case less
      then have "flat ! ?q < flat ! p"
        using argmax_spec(3) [OF ne, of ?q] by (simp add: p_def)
      then show ?thesis using all by simp
    next
      case equal
      then show ?thesis .
    next
      case greater
      then have "p div B * B + p mod B < a * B + b"
        by simp
      then have "p div B < a \<or> p div B = a \<and> p mod B < b"
        using row_major_less [OF ab(2) pb, of "p div B" a] by simp
      then have "flat ! p < flat ! ?q"
        using ab(3,4) by (intro before) auto
      moreover have "flat ! ?q \<le> flat ! p"
        using argmax_spec(2) [OF ne, of ?q] idx [OF ab(1,2)] lflat by (simp add: p_def)
      ultimately show ?thesis by simp
    qed
    then have "p div B = a" "p mod B = b"
      using ab(2) by auto
    then show ?R
      using ab(3,4) by (simp add: p_def)
  qed
qed


lemma length_add_slice2: "length (add_slice2 plane hs ws m) = length plane"
  by (simp add: add_slice2_def)

lemma length_add_slice2_row:
  "h < length plane \<Longrightarrow> length (add_slice2 plane hs ws m ! h) = length (plane ! h)"
  by (simp add: add_slice2_def)

lemma nth_add_slice2:
  assumes "h < length plane" and "w < length (plane ! h)"
  shows "add_slice2 plane hs ws m ! h ! w
       = plane ! h ! w
         + (if hs \<le> h \<and> h < hs + length m \<and> ws \<le> w \<and> w < ws + length (m ! (h - hs))
            then m ! (h - hs) ! (w - ws) else 0)"
  using assms by (simp add: add_slice2_def)

lemma first_max_plane:
  assumes "pp_pool_height pp = ph" and "pp_pool_width pp = pw" and "pp_stride pp = s"
  shows "first_max x pp n c i j h w \<longleftrightarrow>
    (i * s \<le> h \<and> h < i * s + ph \<and> j * s \<le> w \<and> w < j * s + pw \<and>
      (\<forall>h' \<in> {i * s..<i * s + ph}. \<forall>w' \<in> {j * s..<j * s + pw}.
         data4 x ! n ! c ! h' ! w' \<le> data4 x ! n ! c ! h ! w \<and>
         (h' < h \<or> h' = h \<and> w' < w \<longrightarrow> data4 x ! n ! c ! h' ! w' < data4 x ! n ! c ! h ! w)))"
  by (simp add: first_max_def Let_def assms at4_def)

lemma pool_backward_step_value:
  assumes x: "wf4 x" and xs: "shape4 x = (N, C, H, W)"
    and dx: "wf4 dx" and dxs: "shape4 dx = (N, C, H, W)"
    and n: "n < N" and c: "c < C"
    and fit: "i * s + ph \<le> H" "j * s + pw \<le> W" and pos: "0 < ph" "0 < pw"
    and pp: "pp_pool_height pp = ph" "pp_pool_width pp = pw" "pp_stride pp = s"
  shows "\<exists>dx'. pool_backward_step x dout ph pw s n c i j dx = Inr dx' \<and> wf4 dx' \<and>
           shape4 dx' = (N, C, H, W) \<and>
           (\<forall>n' c' h w. n' < N \<longrightarrow> c' < C \<longrightarrow> h < H \<longrightarrow> w < W \<longrightarrow>
              at4 dx' n' c' h w = at4 dx n' c' h w
                + (if n' = n \<and> c' = c \<and> first_max x pp n c i j h w then at4 dout n c i j
                   else 0))"
proof -
  define plane where "plane = data4 x ! n ! c"
  define local where "local = window2 plane (i * s) (i * s + ph) (j * s) (j * s + pw)"
  define p where "p = argmax (concat local)"
  define d where "d = at4 dout n c i j"
  define upd where "upd = map (map (\<lambda>m. d * m))
      (map (\<lambda>a. map (\<lambda>b. if (a, b) = (p div pw, p mod pw) then 0 + 1 else (0::real)) [0..<pw])
         [0..<ph])"
  define dx' where "dx' = dx \<lparr>data4 := (data4 dx)
      [n := (data4 dx ! n)[c := add_slice2 (data4 dx ! n ! c) (i * s) (j * s) upd]]\<rparr>"
  note xd = wf4D [OF x xs]
  note dd = wf4D [OF dx dxs]
  have plane: "length plane = H" "\<And>h. h < H \<Longrightarrow> length (plane ! h) = W"
    using xd(3,4) n c by (simp_all add: plane_def)
  note fm = first_max_position [OF plane fit pos, folded local_def, folded p_def]
  note sh = window2_shape [OF plane fit, folded local_def]
  have "local \<noteq> []"
    using sh(1) pos by auto
  then have "hd local = local ! 0"
    by (simp add: hd_conv_nth)
  then have lw: "length (hd local) = pw"
    using sh(2) [of 0] pos by simp
  have step: "pool_backward_step x dout ph pw s n c i j dx = Inr dx'"
    using fm(1) lw sh(1)
    by (simp add: pool_backward_step_def Let_def plane_def [symmetric] local_def [symmetric]
        p_def [symmetric] d_def [symmetric] upd_def dx'_def)
  have lupd: "length upd = ph" "\<And>a. a < ph \<Longrightarrow> length (upd ! a) = pw"
    by (simp_all add: upd_def)
  have upd_ab: "upd ! a ! b = (if a = p div pw \<and> b = p mod pw then d else 0)"
    if "a < ph" "b < pw" for a b
    using that by (simp add: upd_def)
  have sh': "shape4 dx' = (N, C, H, W)"
    using dxs by (simp add: dx'_def)
  have pl': "data4 dx' ! n' ! c'
      = (if n' = n \<and> c' = c then add_slice2 (data4 dx ! n ! c) (i * s) (j * s) upd
         else data4 dx ! n' ! c')" if "n' < N" "c' < C" for n' c'
    using that n c dd(1,2) by (simp add: dx'_def nth_list_update)
  have wf': "wf4 dx'"
  proof (rule wf4I [OF sh'])
    show "length (data4 dx') = N"
      using dd(1) by (simp add: dx'_def)
  next
    fix n' assume "n' < N"
    then show "length (data4 dx' ! n') = C"
      using dd(1,2) n by (simp add: dx'_def nth_list_update)
  next
    fix n' c' assume "n' < N" "c' < C"
    then show "length (data4 dx' ! n' ! c') = H"
      using dd(3) n c by (simp add: pl' length_add_slice2)
  next
    fix n' c' h assume "n' < N" "c' < C" "h < H"
    then show "length (data4 dx' ! n' ! c' ! h) = W"
      using dd(3,4) n c by (simp add: pl' length_add_slice2_row)
  qed
  have "at4 dx' n' c' h w = at4 dx n' c' h w
      + (if n' = n \<and> c' = c \<and> first_max x pp n c i j h w then d else 0)"
    if b: "n' < N" "c' < C" "h < H" "w < W" for n' c' h w
  proof (cases "n' = n \<and> c' = c")
    case False
    then show ?thesis
      using b by (auto simp: at4_def pl')
  next
    case True
    have "first_max x pp n c i j h w \<longleftrightarrow> h = i * s + p div pw \<and> w = j * s + p mod pw"
      unfolding first_max_plane [OF pp] plane_def [symmetric] by (rule fm(3))
    moreover have "add_slice2 (data4 dx ! n ! c) (i * s) (j * s) upd ! h ! w
        = data4 dx ! n ! c ! h ! w
          + (if h = i * s + p div pw \<and> w = j * s + p mod pw then d else 0)"
    proof -
      have in_win: "i * s \<le> h \<and> h < i * s + ph \<and> j * s \<le> w \<and> w < j * s + pw"
        if "h = i * s + p div pw \<and> w = j * s + p mod pw"
        using that fm(2) pos by simp
      have "add_slice2 (data4 dx ! n ! c) (i * s) (j * s) upd ! h ! w
          = data4 dx ! n ! c ! h ! w
            + (if i * s \<le> h \<and> h < i * s + length upd \<and> j * s \<le> w
                  \<and> w < j * s + length (upd ! (h - i * s))
               then upd ! (h - i * s) ! (w - j * s) else 0)"
        using b dd(3,4) n c by (intro nth_add_slice2) simp_all
      also have "(i * s \<le> h \<and> h < i * s + length upd \<and> j * s \<le> w
                  \<and> w < j * s + length (upd ! (h - i * s)))
          \<longleftrightarrow> (i * s \<le> h \<and> h < i * s + ph \<and> j * s \<le> w \<and> w < j * s + pw)"
        using lupd(2) [of "h - i * s"] by (auto simp: lupd(1))
      also have "(if i * s \<le> h \<and> h < i * s + ph \<and> j * s \<le> w \<and> w < j * s + pw
               then upd ! (h - i * s) ! (w - j * s) else 0)
          = (if h = i * s + p div pw \<and> w = j * s + p mod pw then d else 0)"
      proof (cases "i * s \<le> h \<and> h < i * s + ph \<and> j * s \<le> w \<and> w < j * s + pw")
        case True
        then have ab: "h - i * s < ph" "w - j * s < pw"
          by auto
        have "upd ! (h - i * s) ! (w - j * s)
            = (if h - i * s = p div pw \<and> w - j * s = p mod pw then d else 0)"
          using ab by (rule upd_ab)
        moreover have "h - i * s = p div pw \<and> w - j * s = p mod pw
            \<longleftrightarrow> h = i * s + p div pw \<and> w = j * s + p mod pw"
          using True by auto
        ultimately show ?thesis
          by (simp only: True if_True simp_thms)
      next
        case False
        then have r: "\<not> (h = i * s + p div pw \<and> w = j * s + p mod pw)"
          using in_win by blast
        show ?thesis
          by (simp only: False r if_False simp_thms)
      qed
      finally show ?thesis .
    qed
    ultimately show ?thesis
      using True b by (simp add: at4_def pl')
  qed
  then show ?thesis
    using step wf' sh' unfolding d_def by blast
qed


lemma foldM_first:
  assumes "foldM f [0..<M] s = Inr s'" and "0 < M"
  shows "\<exists>s1. f 0 s = Inr s1"
proof -
  have "[0..<M] = 0 # [1..<M]"
    using assms(2) by (simp add: upt_conv_Cons)
  then show ?thesis
    using assms(1) by (cases "f 0 s") simp_all
qed

lemma foldM_invariant:
  assumes "foldM f xs s = Inr s'" and "P s"
    and "\<And>a t t'. f a t = Inr t' \<Longrightarrow> P t \<Longrightarrow> P t'"
  shows "P s'"
  using assms(1,2)
proof (induction xs arbitrary: s)
  case Nil
  then show ?case by simp
next
  case (Cons a xs)
  then obtain t where t: "f a s = Inr t" and r: "foldM f xs t = Inr s'"
    by (cases "f a s") simp_all
  have "P t"
    using t Cons.prems(2) by (rule assms(3))
  with r show ?case
    by (rule Cons.IH)
qed

lemma pool_forward_step_shape:
  "pool_forward_step x ph pw s i j n c out = Inr out' \<Longrightarrow> shape4 out' = shape4 out"
  by (auto simp: pool_forward_step_def Let_def split: if_splits)

lemma pool_forward_step_window:
  assumes "pool_forward_step x ph pw s 0 0 0 0 out = Inr out'"
  shows "0 < ph \<and> 0 < pw"
proof -
  have ne: "concat (window2 (data4 x ! 0 ! 0) 0 ph 0 pw) \<noteq> []"
    using assms by (auto simp: pool_forward_step_def Let_def split: if_splits)
  have "0 < ph"
  proof (rule ccontr)
    assume "\<not> 0 < ph"
    then show False using ne by (simp add: window2_def slice_def)
  qed
  moreover have "0 < pw"
  proof (rule ccontr)
    assume "\<not> 0 < pw"
    then show False using ne by (simp add: window2_def slice_def)
  qed
  ultimately show ?thesis by simp
qed

text \<open>What a forward pass that returned says about the pooling parameters.\<close>

lemma max_pool_forward_naive_returned:
  assumes fw: "max_pool_forward_naive x pp = Inr (out, cache)"
    and xs: "shape4 x = (N, C, H, W)"
  defines "Hp \<equiv> nat (1 + (int H - int (pp_pool_height pp)) div int (pp_stride pp))"
    and "Wp \<equiv> nat (1 + (int W - int (pp_pool_width pp)) div int (pp_stride pp))"
  shows "cache = (x, pp)" and "0 < pp_stride pp" and "shape4 out = (N, C, Hp, Wp)"
    and "0 < N \<Longrightarrow> 0 < C \<Longrightarrow> 0 < Hp \<Longrightarrow> 0 < Wp \<Longrightarrow>
           0 < pp_pool_height pp \<and> 0 < pp_pool_width pp"
proof -
  define ph pw s where "ph = pp_pool_height pp" and "pw = pp_pool_width pp"
    and "s = pp_stride pp"
  define loop where "loop = foldM (\<lambda>i. foldM (\<lambda>j. foldM (\<lambda>n.
      foldM (pool_forward_step x ph pw s i j n) [0..<C]) [0..<N]) [0..<Wp]) [0..<Hp]
      (zeros4 (N, C, Hp, Wp))"
  show s: "0 < pp_stride pp"
    using fw by (auto simp: max_pool_forward_naive_def xs Let_def split: if_splits)
  have run: "loop = Inr out" and "cache = (x, pp)"
    using fw s
    by (auto simp: max_pool_forward_naive_def xs Let_def loop_def Hp_def Wp_def ph_def pw_def
        s_def split: if_splits sum.splits)
  then show "cache = (x, pp)"
    by simp
  have keep: "foldM (pool_forward_step x ph pw s i j n) cs t = Inr t' \<Longrightarrow> shape4 t = sh
      \<Longrightarrow> shape4 t' = sh" for i j n cs t t' sh
    by (erule foldM_invariant) (auto dest: pool_forward_step_shape)
  have keep2: "foldM (\<lambda>n. foldM (pool_forward_step x ph pw s i j n) cs) ns t = Inr t'
      \<Longrightarrow> shape4 t = sh \<Longrightarrow> shape4 t' = sh" for i j cs ns t t' sh
    by (erule foldM_invariant) (auto dest: keep)
  have keep3: "foldM (\<lambda>j. foldM (\<lambda>n. foldM (pool_forward_step x ph pw s i j n) cs) ns) js t
      = Inr t' \<Longrightarrow> shape4 t = sh \<Longrightarrow> shape4 t' = sh" for i cs ns js t t' sh
    by (erule foldM_invariant) (auto dest: keep2)
  have "shape4 (zeros4 (N, C, Hp, Wp)) = (N, C, Hp, Wp)"
    by (simp add: zeros4_def)
  with run [unfolded loop_def] show "shape4 out = (N, C, Hp, Wp)"
    by (rule foldM_invariant [where P = "\<lambda>t. shape4 t = (N, C, Hp, Wp)"]) (rule keep3)
  show "0 < pp_pool_height pp \<and> 0 < pp_pool_width pp"
    if "0 < N" "0 < C" "0 < Hp" "0 < Wp"
  proof -
    from foldM_first [OF run [unfolded loop_def] that(3)] obtain t1 where
      "foldM (\<lambda>j. foldM (\<lambda>n. foldM (pool_forward_step x ph pw s 0 j n) [0..<C]) [0..<N])
         [0..<Wp] (zeros4 (N, C, Hp, Wp)) = Inr t1" ..
    from foldM_first [OF this that(4)] obtain t2 where
      "foldM (\<lambda>n. foldM (pool_forward_step x ph pw s 0 0 n) [0..<C]) [0..<N]
         (zeros4 (N, C, Hp, Wp)) = Inr t2" ..
    from foldM_first [OF this that(1)] obtain t3 where
      "foldM (pool_forward_step x ph pw s 0 0 0) [0..<C] (zeros4 (N, C, Hp, Wp)) = Inr t3" ..
    from foldM_first [OF this that(2)] obtain t4 where
      "pool_forward_step x ph pw s 0 0 0 0 (zeros4 (N, C, Hp, Wp)) = Inr t4" ..
    then show ?thesis
      unfolding ph_def pw_def by (rule pool_forward_step_window)
  qed
qed

lemma pool_window_fits:
  assumes "i < nat (1 + (int H - int ph) div int s)" and "0 < s"
  shows "i * s + ph \<le> H"
proof -
  have nonneg: "0 \<le> (int H - int ph) div int s"
    using assms(1) by linarith
  then have le: "ph \<le> H"
    using assms(2) by (simp add: pos_imp_zdiv_nonneg_iff)
  have "int i \<le> (int H - int ph) div int s"
    using assms(1) by linarith
  then have "int i * int s \<le> (int H - int ph) div int s * int s"
    by (intro mult_right_mono) simp_all
  also have "\<dots> \<le> int H - int ph"
  proof -
    have "(int H - int ph) div int s * int s + (int H - int ph) mod int s = int H - int ph"
      by (rule div_mult_mod_eq)
    moreover have "0 \<le> (int H - int ph) mod int s"
      using assms(2) by simp
    ultimately show ?thesis
      by linarith
  qed
  finally have "int (i * s) + int ph \<le> int H"
    by simp
  then show ?thesis
    by linarith
qed


text \<open>
  C6.  Let the forward pass on \<open>x\<close> of shape \<open>(N, C, H, W)\<close> have returned an output of
  shape \<open>(N, C, H', W')\<close> and the cache, and let \<^verbatim>\<open>dout\<close> have the shape of the output.  Then
  \<^verbatim>\<open>max_pool_backward_naive\<close> returns a gradient \<open>dx\<close> of the shape of \<open>x\<close>, and \<open>dx[n,c,h,w]\<close>
  is the sum of \<open>dout[n,c,i,j]\<close> over the output cells \<open>(i, j)\<close> whose window has its first
  maximum, in row-major order, at \<open>(h, w)\<close>: contributions of overlapping windows add up and
  the other positions of a window receive nothing from its cell.  Every window has exactly
  one such position.
\<close>

theorem max_pool_backward_naive_routes:
  assumes fw: "max_pool_forward_naive x pp = Inr (out, cache)"
    and x: "wf4 x" and xs: "shape4 x = (N, C, H, W)"
    and os: "shape4 out = (N, C, H', W')"
    and d: "wf4 dout" and ds: "shape4 dout = (N, C, H', W')"
  shows "\<exists>dx. max_pool_backward_naive dout cache = Inr dx \<and> wf4 dx \<and>
           shape4 dx = (N, C, H, W) \<and>
           (\<forall>n<N. \<forall>c<C. \<forall>h<H. \<forall>w<W.
              at4 dx n c h w
                = (\<Sum>i<H'. \<Sum>j<W'. if first_max x pp n c i j h w then at4 dout n c i j else 0)) \<and>
           (\<forall>n<N. \<forall>c<C. \<forall>i<H'. \<forall>j<W'. \<exists>h<H. \<exists>w<W.
              \<forall>h' w'. first_max x pp n c i j h' w' \<longleftrightarrow> h' = h \<and> w' = w)"
proof -
  define ph pw s where "ph = pp_pool_height pp" and "pw = pp_pool_width pp"
    and "s = pp_stride pp"
  note ret = max_pool_forward_naive_returned [OF fw xs, folded ph_def pw_def s_def]
  have cache: "cache = (x, pp)" and s: "0 < s"
    using ret(1,2) by simp_all
  have H': "H' = nat (1 + (int H - int ph) div int s)"
    and W': "W' = nat (1 + (int W - int pw) div int s)"
    using ret(3) os by simp_all
  have pre: "0 < ph \<and> 0 < pw \<and> i * s + ph \<le> H \<and> j * s + pw \<le> W"
    if "n < N" "c < C" "i < H'" "j < W'" for n c i j
  proof -
    have "0 < ph \<and> 0 < pw"
      using that ret(4) H' W' by auto
    moreover have "i * s + ph \<le> H"
      using that(3) s unfolding H' by (rule pool_window_fits)
    moreover have "j * s + pw \<le> W"
      using that(4) s unfolding W' by (rule pool_window_fits)
    ultimately show ?thesis by simp
  qed
  define I where "I = (\<lambda>a. wf4 a \<and> shape4 a = (N, C, H, W))"
  define rd where "rd = (\<lambda>a (q :: nat \<times> nat \<times> nat \<times> nat). case q of (n, c, h, w) \<Rightarrow>
      if n < N \<and> c < C \<and> h < H \<and> w < W then at4 a n c h w else 0)"
  define dl where "dl = (\<lambda>n c i j (q :: nat \<times> nat \<times> nat \<times> nat). case q of (n', c', h, w) \<Rightarrow>
      if n' = n then (if c' = c then
        (if n' < N \<and> c' < C \<and> h < H \<and> w < W \<and> first_max x pp n c i j h w
         then at4 dout n c i j else 0) else 0) else 0)"
  define step where "step = pool_backward_step x dout ph pw s"
  have loop_j: "\<exists>a'. foldM (step n c i) [0..<W'] a = Inr a' \<and> I a' \<and>
      (\<forall>q. rd a' q = rd a q + (\<Sum>j<W'. dl n c i j q))"
    if n: "n < N" and c: "c < C" and i: "i < H'" and a: "I a" for n c i a
  proof (rule foldM_accumulate [where I = I])
    show "I a" by (rule a)
  next
    fix j a assume j: "j < W'" and a: "I a"
    note p = pre [OF n c i j]
    have "\<exists>dx'. pool_backward_step x dout ph pw s n c i j a = Inr dx' \<and> wf4 dx' \<and>
           shape4 dx' = (N, C, H, W) \<and>
           (\<forall>n' c' h w. n' < N \<longrightarrow> c' < C \<longrightarrow> h < H \<longrightarrow> w < W \<longrightarrow>
              at4 dx' n' c' h w = at4 a n' c' h w
                + (if n' = n \<and> c' = c \<and> first_max x pp n c i j h w then at4 dout n c i j
                   else 0))"
      using a p n c unfolding I_def
      by (intro pool_backward_step_value [OF x xs]) (simp_all add: ph_def pw_def s_def)
    then obtain a' where all: "pool_backward_step x dout ph pw s n c i j a = Inr a' \<and> wf4 a' \<and>
           shape4 a' = (N, C, H, W) \<and>
           (\<forall>n' c' h w. n' < N \<longrightarrow> c' < C \<longrightarrow> h < H \<longrightarrow> w < W \<longrightarrow>
              at4 a' n' c' h w = at4 a n' c' h w
                + (if n' = n \<and> c' = c \<and> first_max x pp n c i j h w then at4 dout n c i j
                   else 0))" ..
    have "rd a' q = rd a q + dl n c i j q" for q
    proof (cases q)
      case (fields n' c' h w)
      then show ?thesis
        using all [THEN conjunct2, THEN conjunct2, THEN conjunct2, rule_format, of n' c' h w]
        by (simp add: rd_def dl_def)
    qed
    then show "\<exists>a'. step n c i j a = Inr a' \<and> I a' \<and> (\<forall>q. rd a' q = rd a q + dl n c i j q)"
      using all by (intro exI [of _ a']) (simp add: step_def I_def)
  qed
  have loop_i: "\<exists>a'. foldM (\<lambda>i. foldM (step n c i) [0..<W']) [0..<H'] a = Inr a' \<and> I a' \<and>
      (\<forall>q. rd a' q = rd a q + (\<Sum>i<H'. \<Sum>j<W'. dl n c i j q))"
    if n: "n < N" and c: "c < C" and a: "I a" for n c a
  proof (rule foldM_accumulate [where I = I])
    show "I a" by (rule a)
  next
    fix i a assume "i < H'" and "I a"
    then show "\<exists>a'. foldM (step n c i) [0..<W'] a = Inr a' \<and> I a' \<and>
        (\<forall>q. rd a' q = rd a q + (\<Sum>j<W'. dl n c i j q))"
      by (rule loop_j [OF n c])
  qed
  have loop_c: "\<exists>a'. foldM (\<lambda>c. foldM (\<lambda>i. foldM (step n c i) [0..<W']) [0..<H']) [0..<C] a
        = Inr a' \<and> I a' \<and>
      (\<forall>q. rd a' q = rd a q + (\<Sum>c<C. \<Sum>i<H'. \<Sum>j<W'. dl n c i j q))"
    if n: "n < N" and a: "I a" for n a
  proof (rule foldM_accumulate [where I = I])
    show "I a" by (rule a)
  next
    fix c a assume "c < C" and "I a"
    then show "\<exists>a'. foldM (\<lambda>i. foldM (step n c i) [0..<W']) [0..<H'] a = Inr a' \<and> I a' \<and>
        (\<forall>q. rd a' q = rd a q + (\<Sum>i<H'. \<Sum>j<W'. dl n c i j q))"
      by (rule loop_i [OF n])
  qed
  have loop_n: "\<exists>a'. foldM (\<lambda>n. foldM (\<lambda>c. foldM (\<lambda>i. foldM (step n c i) [0..<W']) [0..<H'])
        [0..<C]) [0..<N] a = Inr a' \<and> I a' \<and>
      (\<forall>q. rd a' q = rd a q + (\<Sum>n<N. \<Sum>c<C. \<Sum>i<H'. \<Sum>j<W'. dl n c i j q))"
    if a: "I a" for a
  proof (rule foldM_accumulate [where I = I])
    show "I a" by (rule a)
  next
    fix n a assume "n < N" and "I a"
    then show "\<exists>a'. foldM (\<lambda>c. foldM (\<lambda>i. foldM (step n c i) [0..<W']) [0..<H']) [0..<C] a
          = Inr a' \<and> I a' \<and>
        (\<forall>q. rd a' q = rd a q + (\<Sum>c<C. \<Sum>i<H'. \<Sum>j<W'. dl n c i j q))"
      by (rule loop_c)
  qed
  have I0: "I (zeros4 (N, C, H, W))"
    by (simp add: I_def wf4_zeros4) (simp add: zeros4_def)
  from loop_n [OF I0] obtain dx where all:
    "foldM (\<lambda>n. foldM (\<lambda>c. foldM (\<lambda>i. foldM (step n c i) [0..<W']) [0..<H']) [0..<C]) [0..<N]
       (zeros4 (N, C, H, W)) = Inr dx \<and> I dx \<and>
     (\<forall>q. rd dx q = rd (zeros4 (N, C, H, W)) q
        + (\<Sum>n<N. \<Sum>c<C. \<Sum>i<H'. \<Sum>j<W'. dl n c i j q))" ..
  then have run: "foldM (\<lambda>n. foldM (\<lambda>c. foldM (\<lambda>i. foldM (step n c i) [0..<W']) [0..<H'])
       [0..<C]) [0..<N] (zeros4 (N, C, H, W)) = Inr dx"
    and Idx: "I dx"
    and cells: "\<forall>q. rd dx q = rd (zeros4 (N, C, H, W)) q
        + (\<Sum>n<N. \<Sum>c<C. \<Sum>i<H'. \<Sum>j<W'. dl n c i j q)"
    by simp_all
  have res: "max_pool_backward_naive dout cache = Inr dx"
    using s run
    by (simp add: max_pool_backward_naive_def cache xs Let_def ph_def [symmetric]
        pw_def [symmetric] s_def [symmetric] H' [symmetric] W' [symmetric] step_def)
  have el: "at4 dx n c h w
      = (\<Sum>i<H'. \<Sum>j<W'. if first_max x pp n c i j h w then at4 dout n c i j else 0)"
    if b: "n < N" "c < C" "h < H" "w < W" for n c h w
  proof -
    let ?g = "\<lambda>i j. if first_max x pp n c i j h w then at4 dout n c i j else 0"
    have "rd dx (n, c, h, w) = rd (zeros4 (N, C, H, W)) (n, c, h, w)
        + (\<Sum>n'<N. \<Sum>c'<C. \<Sum>i<H'. \<Sum>j<W'. dl n' c' i j (n, c, h, w))"
      using cells by (rule spec)
    moreover have "rd (zeros4 (N, C, H, W)) (n, c, h, w) = 0"
      using b by (simp add: rd_def at4_zeros4)
    moreover have "(\<Sum>n'<N. \<Sum>c'<C. \<Sum>i<H'. \<Sum>j<W'. dl n' c' i j (n, c, h, w))
        = (\<Sum>i<H'. \<Sum>j<W'. ?g i j)"
    proof -
      have "(\<Sum>n'<N. \<Sum>c'<C. \<Sum>i<H'. \<Sum>j<W'. dl n' c' i j (n, c, h, w))
          = (\<Sum>n'<N. if n' = n then (\<Sum>c'<C. \<Sum>i<H'. \<Sum>j<W'. dl n c' i j (n, c, h, w)) else 0)"
      proof (rule sum.cong [OF refl])
        fix n'
        show "(\<Sum>c'<C. \<Sum>i<H'. \<Sum>j<W'. dl n' c' i j (n, c, h, w))
            = (if n' = n then (\<Sum>c'<C. \<Sum>i<H'. \<Sum>j<W'. dl n c' i j (n, c, h, w)) else 0)"
          by (cases "n' = n") (simp_all add: dl_def)
      qed
      also have "\<dots> = (\<Sum>c'<C. \<Sum>i<H'. \<Sum>j<W'. dl n c' i j (n, c, h, w))"
        using b(1) by (simp add: sum.delta)
      also have "\<dots> = (\<Sum>c'<C. if c' = c then (\<Sum>i<H'. \<Sum>j<W'. dl n c i j (n, c, h, w)) else 0)"
      proof (rule sum.cong [OF refl])
        fix c'
        show "(\<Sum>i<H'. \<Sum>j<W'. dl n c' i j (n, c, h, w))
            = (if c' = c then (\<Sum>i<H'. \<Sum>j<W'. dl n c i j (n, c, h, w)) else 0)"
          by (cases "c' = c") (simp_all add: dl_def)
      qed
      also have "\<dots> = (\<Sum>i<H'. \<Sum>j<W'. dl n c i j (n, c, h, w))"
        using b(2) by (simp add: sum.delta)
      also have "\<dots> = (\<Sum>i<H'. \<Sum>j<W'. ?g i j)"
        using b by (simp add: dl_def)
      finally show ?thesis .
    qed
    ultimately show ?thesis
      using b by (simp add: rd_def)
  qed
  have uniq: "\<exists>h<H. \<exists>w<W. \<forall>h' w'. first_max x pp n c i j h' w' \<longleftrightarrow> h' = h \<and> w' = w"
    if b: "n < N" "c < C" "i < H'" "j < W'" for n c i j
  proof -
    note p = pre [OF b]
    note xd = wf4D [OF x xs]
    define plane where "plane = data4 x ! n ! c"
    have plane: "length plane = H" "\<And>h. h < H \<Longrightarrow> length (plane ! h) = W"
      using xd(3,4) b(1,2) by (simp_all add: plane_def)
    define q where "q = argmax (concat (window2 plane (i * s) (i * s + ph) (j * s) (j * s + pw)))"
    note fm = first_max_position [OF plane, of "i * s" ph "j * s" pw, folded q_def]
    have fmq: "first_max x pp n c i j h' w' \<longleftrightarrow> h' = i * s + q div pw \<and> w' = j * s + q mod pw"
      for h' w'
      unfolding first_max_plane [of pp ph pw s, OF ph_def [symmetric] pw_def [symmetric]
          s_def [symmetric]] plane_def [symmetric]
      using p by (intro fm(3)) simp_all
    have "i * s + q div pw < H"
      using fm(2) p by simp
    moreover have "j * s + q mod pw < W"
    proof -
      have "q mod pw < pw" using p by simp
      then show ?thesis using p by linarith
    qed
    ultimately show ?thesis
      using fmq by blast
  qed
  have "wf4 dx" "shape4 dx = (N, C, H, W)"
    using Idx by (simp_all add: I_def)
  then show ?thesis
    using res el uniq by (intro exI [of _ dx]) simp
qed


lemma pool_forward_example:
  "max_pool_forward_naive
     \<lparr>shape4 = (1, 1, 3, 3), data4 = [[[[1, 5, 5], [5, 2, 0], [7, 7, 1]]]]\<rparr>
     \<lparr>pp_pool_height = 2, pp_pool_width = 2, pp_stride = 1\<rparr>
   = Inr (\<lparr>shape4 = (1, 1, 2, 2), data4 = [[[[5, 5], [7, 7]]]]\<rparr>,
          (\<lparr>shape4 = (1, 1, 3, 3), data4 = [[[[1, 5, 5], [5, 2, 0], [7, 7, 1]]]]\<rparr>,
           \<lparr>pp_pool_height = 2, pp_pool_width = 2, pp_stride = 1\<rparr>))"
  by (simp add: max_pool_forward_naive_def Let_def zeros4_def pool_forward_step_def window2_def
      slice_def row_max_def upt_rec [of 0] upt_rec [of 1] upt_rec [of 2] eval_nat_numeral)

lemma pool_backward_example:
  "max_pool_backward_naive
     \<lparr>shape4 = (1, 1, 2, 2), data4 = [[[[1, 10], [100, 1000]]]]\<rparr>
     (\<lparr>shape4 = (1, 1, 3, 3), data4 = [[[[1, 5, 5], [5, 2, 0], [7, 7, 1]]]]\<rparr>,
      \<lparr>pp_pool_height = 2, pp_pool_width = 2, pp_stride = 1\<rparr>)
   = Inr \<lparr>shape4 = (1, 1, 3, 3), data4 = [[[[0, 11, 0], [0, 0, 0], [100, 1000, 0]]]]\<rparr>"
  by (simp add: max_pool_backward_naive_def Let_def zeros4_def pool_backward_step_def window2_def
      slice_def argmax_def add_slice2_def at4_def
      upt_rec [of 0] upt_rec [of 1] upt_rec [of 2] upt_rec [of 3] eval_nat_numeral)


theorem max_pool_backward_naive_routes_witness:
  "max_pool_forward_naive
     \<lparr>shape4 = (1, 1, 3, 3), data4 = [[[[1, 5, 5], [5, 2, 0], [7, 7, 1]]]]\<rparr>
     \<lparr>pp_pool_height = 2, pp_pool_width = 2, pp_stride = 1\<rparr>
   = Inr (\<lparr>shape4 = (1, 1, 2, 2), data4 = [[[[5, 5], [7, 7]]]]\<rparr>,
          (\<lparr>shape4 = (1, 1, 3, 3), data4 = [[[[1, 5, 5], [5, 2, 0], [7, 7, 1]]]]\<rparr>,
           \<lparr>pp_pool_height = 2, pp_pool_width = 2, pp_stride = 1\<rparr>)) \<and>
   wf4 \<lparr>shape4 = (1, 1, 3, 3), data4 = [[[[1, 5, 5], [5, 2, 0], [7, 7, 1]]]]\<rparr> \<and>
   wf4 \<lparr>shape4 = (1, 1, 2, 2), data4 = [[[[1, 10], [100, 1000]]]]\<rparr> \<and>
   (\<exists>dx. max_pool_backward_naive
            \<lparr>shape4 = (1, 1, 2, 2), data4 = [[[[1, 10], [100, 1000]]]]\<rparr>
            (\<lparr>shape4 = (1, 1, 3, 3), data4 = [[[[1, 5, 5], [5, 2, 0], [7, 7, 1]]]]\<rparr>,
             \<lparr>pp_pool_height = 2, pp_pool_width = 2, pp_stride = 1\<rparr>) = Inr dx \<and>
      shape4 dx = (1, 1, 3, 3) \<and>
      at4 dx 0 0 0 1
        = (\<Sum>i<2. \<Sum>j<2.
             if first_max \<lparr>shape4 = (1, 1, 3, 3), data4 = [[[[1, 5, 5], [5, 2, 0], [7, 7, 1]]]]\<rparr>
                  \<lparr>pp_pool_height = 2, pp_pool_width = 2, pp_stride = 1\<rparr> 0 0 i j 0 1
             then at4 \<lparr>shape4 = (1, 1, 2, 2), data4 = [[[[1, 10], [100, 1000]]]]\<rparr> 0 0 i j
             else 0) \<and>
      at4 dx 0 0 0 1 = 11)"
proof -
  let ?x = "\<lparr>shape4 = (1, 1, 3, 3), data4 = [[[[1, 5, 5], [5, 2, 0], [7, 7, 1 :: real]]]]\<rparr>"
  let ?pp = "\<lparr>pp_pool_height = 2, pp_pool_width = 2, pp_stride = 1\<rparr>"
  let ?dout = "\<lparr>shape4 = (1, 1, 2, 2), data4 = [[[[1, 10], [100, 1000 :: real]]]]\<rparr>"
  have x: "wf4 ?x" and d: "wf4 ?dout"
    by (simp_all add: wf4_def)
  from max_pool_backward_naive_routes [OF pool_forward_example x _ _ d, of 1 1 3 3 2 2]
  obtain dx where res: "max_pool_backward_naive ?dout (?x, ?pp) = Inr dx"
    and sh: "shape4 dx = (1, 1, 3, 3)"
    and el: "\<forall>n<1. \<forall>c<1. \<forall>h<3. \<forall>w<3. at4 dx n c h w
        = (\<Sum>i<2. \<Sum>j<2. if first_max ?x ?pp n c i j h w then at4 ?dout n c i j else 0)"
    by auto
  have "dx = \<lparr>shape4 = (1, 1, 3, 3), data4 = [[[[0, 11, 0], [0, 0, 0], [100, 1000, 0]]]]\<rparr>"
    using res pool_backward_example by simp
  then have "at4 dx 0 0 0 1 = 11"
    by (simp add: at4_def)
  moreover have "at4 dx 0 0 0 1
      = (\<Sum>i<2. \<Sum>j<2. if first_max ?x ?pp 0 0 i j 0 1 then at4 ?dout 0 0 i j else 0)"
    using el by simp
  ultimately show ?thesis
    using pool_forward_example x d res sh by blast
qed

end
